theory Spec2Isabelle
  imports Main
begin

section \<open>Python values, built-ins and errors\<close>

text \<open>
  A shallow embedding of \<^verbatim>\<open>src/RSA/PlainRSA.py\<close> (class \<^verbatim>\<open>RsaKeyPair\<close>).
  Python integers are unbounded and are modelled by \<open>int\<close>; \<open>//\<close> and \<open>%\<close> are floor
  division and its remainder, which is what \<open>div\<close> and \<open>mod\<close> are on \<open>int\<close>.

  Every exception is a value of \<open>error\<close>. The class itself only raises \<^verbatim>\<open>ValueError\<close>,
  with a different message at each site; each site has a constructor of its own:
  \<^item> \<open>KeyTooSmall\<close>: line 54, "keylength has to be at least 1024";
  \<^item> \<open>MissingPublicParameters\<close>: line 62, "you need to specify e and N";
  \<^item> \<open>KeyConsistencyFailure\<close>: lines 95 and 100 of \<^verbatim>\<open>quick_test\<close>;
  \<^item> \<open>MessageTooLarge\<close>: line 108, "msg to big for this key";
  \<^item> \<open>EncryptionVerificationFailed\<close>: line 145, "Message not the same after decryption".

  The remaining constructors are the exceptions of the interpreter: \<open>ValueError\<close> (raised
  by the built-ins \<^verbatim>\<open>int\<close>, \<^verbatim>\<open>chr\<close> and \<^verbatim>\<open>pow\<close>), \<open>TypeError\<close>, \<open>ZeroDivisionError\<close> and
  \<open>AttributeError\<close> (reading an attribute the object does not have).
\<close>

datatype error =
    KeyTooSmall
  | MissingPublicParameters
  | KeyConsistencyFailure
  | MessageTooLarge
  | EncryptionVerificationFailed
  | ValueError
  | TypeError
  | ZeroDivisionError
  | AttributeError

text \<open>
  A Python string is a sequence of Unicode code points. A text string is modelled by the
  list of its code points (\<^verbatim>\<open>ord\<close> of each character); a well-formed code point lies in
  \<open>0 ..< 1114112\<close>. The decimal strings that \<^verbatim>\<open>str\<close>, \<^verbatim>\<open>zfill\<close> and \<^verbatim>\<open>int\<close> work on are
  ASCII and are modelled by \<open>string\<close>.
\<close>

type_synonym codepoint = int
type_synonym ustring = "codepoint list"

definition py_ord :: "codepoint \<Rightarrow> int" where
  "py_ord c = c"

text \<open>\<^verbatim>\<open>chr(i)\<close> raises \<^verbatim>\<open>ValueError\<close> outside \<^verbatim>\<open>range(0x110000)\<close>.\<close>

definition py_chr :: "int \<Rightarrow> error + codepoint" where
  "py_chr i = (if 0 \<le> i \<and> i < 1114112 then Inr i else Inl ValueError)"

definition digit_char :: "int \<Rightarrow> char" where
  "digit_char d = char_of (48 + d)"

definition is_digit :: "char \<Rightarrow> bool" where
  "is_digit c \<longleftrightarrow> 48 \<le> (of_char c :: int) \<and> (of_char c :: int) \<le> 57"

definition digit_val :: "char \<Rightarrow> int" where
  "digit_val c = of_char c - 48"

text \<open>
  The interpreter limits the conversion between integers and decimal strings: \<^verbatim>\<open>str\<close> of
  an integer with more digits than \<^verbatim>\<open>sys.get_int_max_str_digits()\<close>, and \<^verbatim>\<open>int\<close> of a
  string with more digits than that, raise \<^verbatim>\<open>ValueError\<close>. The limit is 4300 unless it is
  reconfigured (CPython 3.11 and later); the sign is not counted.
\<close>

definition max_str_digits :: nat where
  "max_str_digits = 4300"

text \<open>
  \<open>str_digits n\<close> are the decimal digits of \<open>n \<ge> 0\<close>. \<^verbatim>\<open>str(i)\<close> of an integer: its digits, after
  a minus sign when negative, or \<^verbatim>\<open>ValueError\<close> when there are too many.
\<close>

function str_digits :: "int \<Rightarrow> string" where
  "str_digits n = (if n < 10 then [digit_char n] else str_digits (n div 10) @ [digit_char (n mod 10)])"
  by pat_completeness auto
termination
  by (relation "measure nat") auto

declare str_digits.simps [simp del]

definition py_str :: "int \<Rightarrow> error + string" where
  "py_str i =
     (let ds = str_digits (if i < 0 then - i else i)
      in if max_str_digits < length ds then Inl ValueError
         else Inr (if i < 0 then CHR ''-'' # ds else ds))"

definition digits_val :: "string \<Rightarrow> int" where
  "digits_val s = foldl (\<lambda>a c. 10 * a + digit_val c) 0 s"

text \<open>
  \<^verbatim>\<open>int(s)\<close> of a string: the strings that reach it here are slices of \<^verbatim>\<open>str\<close> of an integer
  and concatenations of such, so they consist of decimal digits, possibly after one
  leading minus sign. Anything else is a \<^verbatim>\<open>ValueError\<close> (the other forms Python accepts,
  such as surrounding blanks, a plus sign or underscores, cannot occur), and so is a
  string of more than \<open>max_str_digits\<close> digits.
\<close>

definition py_int :: "string \<Rightarrow> error + int" where
  "py_int s =
     (case s of
        [] \<Rightarrow> Inl ValueError
      | c # cs \<Rightarrow>
          if c = CHR ''-'' \<and> cs \<noteq> [] \<and> list_all is_digit cs then
            (if max_str_digits < length cs then Inl ValueError else Inr (- digits_val cs))
          else if list_all is_digit s then
            (if max_str_digits < length s then Inl ValueError else Inr (digits_val s))
          else Inl ValueError)"

text \<open>\<^verbatim>\<open>s.zfill(w)\<close>: zeros on the left up to width \<open>w\<close>, after a leading sign if any.\<close>

definition zfill :: "nat \<Rightarrow> string \<Rightarrow> string" where
  "zfill w s =
     (case s of
        [] \<Rightarrow> replicate w (CHR ''0'')
      | c # cs \<Rightarrow>
          if c = CHR ''-'' \<or> c = CHR ''+''
          then c # replicate (w - length s) (CHR ''0'') @ cs
          else replicate (w - length s) (CHR ''0'') @ s)"

section \<open>The codec: \<^verbatim>\<open>stringToNumber\<close> and \<^verbatim>\<open>numberToString\<close>\<close>

text \<open>
  \<^verbatim>\<open>
  def stringToNumber(self, msg):
      ns = '1421'
      for c in str(msg):
          ns += str(ord(c)).zfill(4)
      return int(ns)
  \<close>
  The function has no check of its own; what can raise are the conversions \<^verbatim>\<open>str\<close> and
  \<^verbatim>\<open>int\<close>. \<open>encode_loop\<close> is the \<^verbatim>\<open>for\<close> loop, with \<open>ns\<close> as its accumulator.
\<close>

fun encode_loop :: "string \<Rightarrow> ustring \<Rightarrow> error + string" where
  "encode_loop ns [] = Inr ns"
| "encode_loop ns (c # cs) =
     (case py_str (py_ord c) of
        Inl err \<Rightarrow> Inl err
      | Inr ds \<Rightarrow> encode_loop (ns @ zfill 4 ds) cs)"

definition stringToNumber :: "ustring \<Rightarrow> error + int" where
  "stringToNumber msg =
     (case encode_loop ''1421'' msg of
        Inl err \<Rightarrow> Inl err
      | Inr ns \<Rightarrow> py_int ns)"

text \<open>The digits a character with a code point \<open>c \<ge> 0\<close> contributes to \<open>ns\<close>.\<close>

definition enc :: "codepoint \<Rightarrow> string" where
  "enc c = zfill 4 (str_digits c)"

text \<open>
  \<^verbatim>\<open>
  def numberToString(self, msg):
      msg = str(msg)
      if msg[:4] == '1421': msg = msg[4:]
      cs = ''
      for n in range(len(str(msg)) // 4):
          cs += str(chr(int(str(msg)[n * 4:n * 4 + 4])))
      return cs
  \<close>
  The argument is an integer (\<^verbatim>\<open>decrypt\<close> passes \<^verbatim>\<open>str\<close> of one, and \<^verbatim>\<open>str\<close> of a string is
  the string). \<open>decode_loop\<close> is the \<^verbatim>\<open>for\<close> loop over the indices \<open>n\<close>, with \<open>cs\<close> as its
  accumulator; the slice \<^verbatim>\<open>msg[n*4 : n*4+4]\<close> is \<open>take 4 (drop (n * 4) msg)\<close>.
\<close>

fun decode_loop :: "string \<Rightarrow> nat list \<Rightarrow> ustring \<Rightarrow> error + ustring" where
  "decode_loop msg [] cs = Inr cs"
| "decode_loop msg (n # ns) cs =
     (case py_int (take 4 (drop (n * 4) msg)) of
        Inl err \<Rightarrow> Inl err
      | Inr v \<Rightarrow>
          (case py_chr v of
             Inl err \<Rightarrow> Inl err
           | Inr c \<Rightarrow> decode_loop msg ns (cs @ [c])))"

definition strip_marker :: "string \<Rightarrow> string" where
  "strip_marker msg = (if take 4 msg = ''1421'' then drop 4 msg else msg)"

definition numberToString :: "int \<Rightarrow> error + ustring" where
  "numberToString m =
     (case py_str m of
        Inl err \<Rightarrow> Inl err
      | Inr s \<Rightarrow>
          (let msg = strip_marker s
           in decode_loop msg [0..<length msg div 4] []))"

text \<open>
  A digit string cut into consecutive groups of four, left to right; what is left over
  at the end (fewer than four digits) is dropped. This is the reading of the decoder
  that the loop above is compared with.
\<close>

fun groups4 :: "string \<Rightarrow> string list" where
  "groups4 (a # b # c # d # rest) = [a, b, c, d] # groups4 rest"
| "groups4 _ = []"

section \<open>The public exponent: \<^verbatim>\<open>factors\<close> and \<^verbatim>\<open>get_e\<close>\<close>

text \<open>
  \<^verbatim>\<open>
  def factors(self, n):
      return set(reduce(list.__add__, ([i, n // i]
                 for i in range(1, int(pow(n, 0.5) + 1)) if n % i == 0)))
  \<close>
  \<open>sqrt_range n\<close> is \<^verbatim>\<open>range(1, int(pow(n, 0.5) + 1))\<close>: the integers \<open>i \<ge> 1\<close> up to the square
  root of \<open>n\<close>, that is, those with \<open>i * i \<le> n\<close>. The square root is taken exactly: the
  floating-point \<^verbatim>\<open>pow(n, 0.5)\<close> is not modelled, neither its rounding for large \<open>n\<close> nor
  the \<^verbatim>\<open>OverflowError\<close> it raises for an \<open>n\<close> beyond the range of a float. \<^verbatim>\<open>get_e\<close> only
  passes \<open>n < 10001\<close>, where the two agree. For \<open>n = 0\<close> the generator is empty and
  \<^verbatim>\<open>reduce\<close> raises \<^verbatim>\<open>TypeError\<close>; for \<open>n < 0\<close> the power is a complex number and
  \<^verbatim>\<open>int\<close> raises \<^verbatim>\<open>TypeError\<close>.
\<close>

definition sqrt_range :: "int \<Rightarrow> int list" where
  "sqrt_range n = filter (\<lambda>i. i * i \<le> n) [1..n]"

definition factors :: "int \<Rightarrow> error + int set" where
  "factors n =
     (if n \<le> 0 then Inl TypeError
      else Inr (set (concat (map (\<lambda>i. [i, n div i]) (filter (\<lambda>i. n mod i = 0) (sqrt_range n))))))"

text \<open>
  \<^verbatim>\<open>
  def get_e(self):
      for i in range(3, 10001, 2):
          d = self.factors(i)
          d.discard(1)
          for j in d:
              if self.phi % j == 0:
                  break
          else:
              return i
  \<close>
  \<open>get_e_from phi i\<close> is the outer loop from the candidate \<open>i\<close> on. The inner loop breaks
  exactly when some \<open>j\<close> of the set divides \<open>phi\<close> (every such \<open>j\<close> is at least 2, so the
  remainder is defined), whatever the order in which the set is enumerated. A search that
  runs off the end of the range returns \<^verbatim>\<open>None\<close>, here \<open>Inr None\<close>.
\<close>

function get_e_from :: "int \<Rightarrow> int \<Rightarrow> error + int option" where
  "get_e_from phi i =
     (if i < 10001 then
        (case factors i of
           Inl err \<Rightarrow> Inl err
         | Inr d \<Rightarrow>
             if \<exists>j \<in> d - {1}. phi mod j = 0 then get_e_from phi (i + 2)
             else Inr (Some i))
      else Inr None)"
  by pat_completeness auto
termination
  by (relation "measure (\<lambda>(phi, i). nat (10001 - i))") auto

declare get_e_from.simps [simp del]

definition get_e :: "int \<Rightarrow> error + int option" where
  "get_e phi = get_e_from phi 3"

section \<open>The private exponent: \<^verbatim>\<open>get_d\<close>\<close>

text \<open>
  \<^verbatim>\<open>
  def get_d(self):
      t1 = [self.phi, self.e]
      t2 = [self.phi, 1]
      while t1[1] != 1:
          tb1 = t1[0] // t1[1]
          tb2 = tb1 * t1[1]
          tb3 = tb1 * t2[1]
          td1 = t1[0] - tb2
          td2 = t2[0] - tb3
          while td2 < 0:
              td2 += self.phi
          t1 = [t1[1], td1]
          t2 = [t2[1], td2]
      return t2[1]
  \<close>
  The two-element lists are pairs. Both loops may run forever, so both are partial
  functions into \<open>option\<close>, where \<open>None\<close> stands for not returning. The division
  \<^verbatim>\<open>t1[0] // t1[1]\<close> raises \<^verbatim>\<open>ZeroDivisionError\<close> when \<^verbatim>\<open>t1[1]\<close> is 0.
\<close>

partial_function (option) add_phi_while_negative :: "int \<Rightarrow> int \<Rightarrow> int option" where
  "add_phi_while_negative phi td2 =
     (if td2 < 0 then add_phi_while_negative phi (td2 + phi) else Some td2)"

partial_function (option) get_d_loop :: "int \<Rightarrow> int \<times> int \<Rightarrow> int \<times> int \<Rightarrow> (error + int) option" where
  "get_d_loop phi t1 t2 =
     (if snd t1 \<noteq> 1 then
        (if snd t1 = 0 then Some (Inl ZeroDivisionError)
         else
           (let tb1 = fst t1 div snd t1;
                tb2 = tb1 * snd t1;
                tb3 = tb1 * snd t2;
                td1 = fst t1 - tb2;
                td2 = fst t2 - tb3
            in Option.bind (add_phi_while_negative phi td2)
                 (\<lambda>td2. get_d_loop phi (snd t1, td1) (snd t2, td2))))
      else Some (Inr (snd t2)))"

declare add_phi_while_negative.simps [code]
declare get_d_loop.simps [code]

definition get_d :: "int \<Rightarrow> int \<Rightarrow> (error + int) option" where
  "get_d phi e = get_d_loop phi (phi, e) (phi, 1)"

section \<open>Bit length: \<^verbatim>\<open>bitcount\<close>\<close>

text \<open>
  \<^verbatim>\<open>
  def bitcount(self, n):
      a = 1
      while 1 << a <= n:
          a <<= 1
      s = 0
      while a > 1:
          a >>= 1
          if n >= 1 << a:
              n >>= a
              s += a
      if n > 0:
          s += 1
      return s
  \<close>
  \<^verbatim>\<open>1 << a\<close> is \<open>2 ^ a\<close>, \<^verbatim>\<open>a <<= 1\<close> doubles \<open>a\<close>, \<^verbatim>\<open>a >>= 1\<close> halves it, and \<^verbatim>\<open>n >>= a\<close> is the
  floor division of \<open>n\<close> by \<open>2 ^ a\<close>. As a function of an arbitrary \<open>a\<close> the first loop
  need not end (it spins at \<open>a = 0\<close>), so it is a partial function into \<open>option\<close>; the
  second loop always ends.
\<close>

partial_function (option) bitcount_grow :: "int \<Rightarrow> int \<Rightarrow> int option" where
  "bitcount_grow a n = (if 2 ^ nat a \<le> n then bitcount_grow (a * 2) n else Some a)"

declare bitcount_grow.simps [code]

function bitcount_shrink :: "int \<Rightarrow> int \<Rightarrow> int \<Rightarrow> int \<times> int" where
  "bitcount_shrink a n s =
     (if 1 < a then
        (let a' = a div 2
         in if 2 ^ nat a' \<le> n then bitcount_shrink a' (n div 2 ^ nat a') (s + a')
            else bitcount_shrink a' n s)
      else (n, s))"
  by pat_completeness auto
termination
  by (relation "measure (\<lambda>(a, n, s). nat a)") auto

declare bitcount_shrink.simps [simp del]

definition bitcount :: "int \<Rightarrow> int option" where
  "bitcount n =
     (case bitcount_grow 1 n of
        None \<Rightarrow> None
      | Some a \<Rightarrow>
          (case bitcount_shrink a n 0 of
             (n', s) \<Rightarrow> Some (if 0 < n' then s + 1 else s)))"

section \<open>The built-in \<^verbatim>\<open>pow\<close> with a modulus\<close>

text \<open>
  \<^verbatim>\<open>pow(b, ex, m)\<close> on integers: \<^verbatim>\<open>ValueError\<close> when \<open>m\<close> is 0; the power reduced modulo
  \<open>m\<close> (with the sign of \<open>m\<close>, as \<^verbatim>\<open>%\<close>) when \<open>ex \<ge> 0\<close>. For a negative exponent, Python
  (3.8 and later) takes the inverse of \<open>b\<close> modulo \<open>m\<close> to the power \<open>- ex\<close>, and raises
  \<^verbatim>\<open>ValueError\<close> when \<open>b\<close> has no inverse; \<open>modinv\<close> finds the inverse by search.
\<close>

definition modinv :: "int \<Rightarrow> int \<Rightarrow> int option" where
  "modinv b m =
     (if coprime b m then find (\<lambda>x. (b * x) mod m = 1 mod m) [0..\<bar>m\<bar> - 1] else None)"

definition py_pow :: "int \<Rightarrow> int \<Rightarrow> int \<Rightarrow> error + int" where
  "py_pow b ex m =
     (if m = 0 then Inl ValueError
      else if 0 \<le> ex then Inr (b ^ nat ex mod m)
      else (case modinv b m of
              None \<Rightarrow> Inl ValueError
            | Some x \<Rightarrow> Inr (x ^ nat (- ex) mod m)))"

text \<open>Square-and-multiply, used to evaluate \<open>py_pow\<close> on numerals.\<close>

function modpow :: "int \<Rightarrow> int \<Rightarrow> int \<Rightarrow> int" where
  "modpow b ex m =
     (if ex \<le> 0 then 1 mod m
      else (let h = modpow b (ex div 2) m; sq = (h * h) mod m
            in if ex mod 2 = 0 then sq else (sq * b) mod m))"
  by pat_completeness auto
termination
  by (relation "measure (\<lambda>(b, ex, m). nat ex)") auto

declare modpow.simps [simp del]

section \<open>The key pair and its operations\<close>

text \<open>
  An instance of \<^verbatim>\<open>RsaKeyPair\<close>. A key built with \<^verbatim>\<open>only_pubkey=True\<close> has the attributes
  \<^verbatim>\<open>e\<close>, \<^verbatim>\<open>n\<close> and \<^verbatim>\<open>nbits\<close> only; the attributes it does not have are \<open>None\<close>, and
  reading one raises \<^verbatim>\<open>AttributeError\<close>.
\<close>

record RsaKeyPair =
  self_p :: "int option"
  self_pbits :: "int option"
  self_q :: "int option"
  self_phi :: "int option"
  self_e :: int
  self_n :: int
  self_d :: "int option"
  self_nbits :: int
  self_only_pubkey :: bool

text \<open>
  Sequencing of computations that may raise (\<open>Inl\<close>) or not return (\<open>None\<close>).
\<close>

definition bind_res :: "(error + 'a) option \<Rightarrow> ('a \<Rightarrow> (error + 'b) option) \<Rightarrow> (error + 'b) option" where
  "bind_res m f = (case m of None \<Rightarrow> None | Some (Inl err) \<Rightarrow> Some (Inl err) | Some (Inr v) \<Rightarrow> f v)"

text \<open>
  The method \<^verbatim>\<open>_encrypt\<close> (a name cannot start with an underscore here):
  \<^verbatim>\<open>
  def _encrypt(self, msg):
      if self.bitcount(msg) >= self.nbits:
          raise ValueError("msg to big for this key, ...")
      return pow(msg, self.e, self.n)
  \<close>
\<close>

definition raw_encrypt :: "RsaKeyPair \<Rightarrow> int \<Rightarrow> (error + int) option" where
  "raw_encrypt k msg =
     (case bitcount msg of
        None \<Rightarrow> None
      | Some b \<Rightarrow>
          Some (if self_nbits k \<le> b then Inl MessageTooLarge
                else py_pow msg (self_e k) (self_n k)))"

text \<open>
  The method \<^verbatim>\<open>_decrypt\<close>; \<open>r\<close> is the value that \<^verbatim>\<open>self.sec.randint(10**46, 10**49)\<close>
  returns, drawn on the blinded path only.
  \<^verbatim>\<open>
  def _decrypt(self, cipher):
      if self.nbits >= 1023:
          r = self.sec.randint(10**46, 10**49)
          s = pow(r, self.e, self.n)
          X = (cipher * s) % self.n
          Y = pow(X, self.d, self.n)
          return (Y // r) % self.n
      else:
          return pow(cipher, self.d, self.n)
  \<close>
  The modulus is not 0 where \<^verbatim>\<open>%\<close> is applied, since \<^verbatim>\<open>pow\<close> has returned before.
\<close>

definition raw_decrypt :: "RsaKeyPair \<Rightarrow> int \<Rightarrow> int \<Rightarrow> error + int" where
  "raw_decrypt k r cipher =
     (if 1023 \<le> self_nbits k then
        (case py_pow r (self_e k) (self_n k) of
           Inl err \<Rightarrow> Inl err
         | Inr s \<Rightarrow>
             (let X = (cipher * s) mod self_n k
              in case self_d k of
                   None \<Rightarrow> Inl AttributeError
                 | Some d \<Rightarrow>
                     (case py_pow X d (self_n k) of
                        Inl err \<Rightarrow> Inl err
                      | Inr Y \<Rightarrow>
                          if r = 0 then Inl ZeroDivisionError
                          else Inr ((Y div r) mod self_n k))))
      else
        (case self_d k of
           None \<Rightarrow> Inl AttributeError
         | Some d \<Rightarrow> py_pow cipher d (self_n k)))"

text \<open>
  \<^verbatim>\<open>
  def decrypt(self, cipher):
      cipher = int(cipher)
      msg = str(self._decrypt(cipher))
      return self.numberToString(msg)
  \<close>
\<close>

definition decrypt :: "RsaKeyPair \<Rightarrow> int \<Rightarrow> int \<Rightarrow> error + ustring" where
  "decrypt k r cipher =
     (case raw_decrypt k r cipher of
        Inl err \<Rightarrow> Inl err
      | Inr msg \<Rightarrow> numberToString msg)"

text \<open>
  \<^verbatim>\<open>
  def encrypt(self, msg):
      msg = str(msg)
      toc = self.stringToNumber(msg)
      c = self._encrypt(toc)
      if not self.only_pubkey:
          if self._decrypt(c) != toc:
              raise ValueError("Message not the same after decryption, ...")
      return c
  \<close>
  \<open>r\<close> is the blinding factor drawn by the inner \<^verbatim>\<open>_decrypt\<close>.
\<close>

definition encrypt :: "RsaKeyPair \<Rightarrow> int \<Rightarrow> ustring \<Rightarrow> (error + int) option" where
  "encrypt k r msg =
     (case stringToNumber msg of
        Inl err \<Rightarrow> Some (Inl err)
      | Inr toc \<Rightarrow>
          bind_res (raw_encrypt k toc) (\<lambda>c.
            if \<not> self_only_pubkey k then
              (case raw_decrypt k r c of
                 Inl err \<Rightarrow> Some (Inl err)
               | Inr res \<Rightarrow>
                   if res \<noteq> toc then Some (Inl EncryptionVerificationFailed)
                   else Some (Inr c))
            else Some (Inr c)))"

text \<open>
  \<^verbatim>\<open>
  def quick_test(self):
      if (self.e * self.d) % self.phi != 1:
          raise ValueError("e, d and phi value don`t match. ...")
      msg = 12
      cipher = self._encrypt(msg)
      if self._decrypt(cipher) != msg:
          raise ValueError("Some values dont work out. ...")
  \<close>
\<close>

definition quick_test :: "RsaKeyPair \<Rightarrow> int \<Rightarrow> (error + unit) option" where
  "quick_test k r =
     (case self_d k of
        None \<Rightarrow> Some (Inl AttributeError)
      | Some d \<Rightarrow>
          (case self_phi k of
             None \<Rightarrow> Some (Inl AttributeError)
           | Some phi \<Rightarrow>
               if phi = 0 then Some (Inl ZeroDivisionError)
               else if (self_e k * d) mod phi \<noteq> 1 then Some (Inl KeyConsistencyFailure)
               else
                 bind_res (raw_encrypt k 12) (\<lambda>cipher.
                   case raw_decrypt k r cipher of
                     Inl err \<Rightarrow> Some (Inl err)
                   | Inr res \<Rightarrow>
                       if res \<noteq> 12 then Some (Inl KeyConsistencyFailure)
                       else Some (Inr ()))))"

text \<open>
  The constructor. An optional argument is \<open>None\<close> or an integer, and \<^verbatim>\<open>if p:\<close> takes the
  argument only when it is neither \<^verbatim>\<open>None\<close> nor 0 (\<open>truthy\<close>).
  \<^verbatim>\<open>generate_prime_number\<close> draws random candidates until \<^verbatim>\<open>is_prime\<close> accepts one; the
  constructor is modelled relative to what these calls return: \<open>primes\<close> lists the results
  of the successive calls, and running out of them stands for a search that does not
  return. \<open>r\<close> is the blinding factor drawn inside \<^verbatim>\<open>quick_test\<close>.
  \<^verbatim>\<open>
  def __init__(self, p=None, q=None, e=None, n=None, d=None,
               keylength=2048, ignore_warning=False, only_pubkey=False):
      if keylength < 1024 and not ignore_warning:
          raise ValueError("For security reasons keylength has to be at least 1024, ...")
      self.only_pubkey = only_pubkey
      self.sec = SystemRandom()
      if self.only_pubkey:
          if not e or not n:
              raise ValueError("If you want to use this only as a public key, ...")
          self.e = e
          self.n = n
          self.nbits = self.bitcount(self.n)
          return
      if p: self.p = p
      else: self.p = self.generate_prime_number(length=keylength // 2)
      self.pbits = self.bitcount(self.p)
      pcheck = self.p
      if q: self.q = q
      else:
          while pcheck == self.p:
              pcheck = self.generate_prime_number(length=keylength // 2)
          self.q = pcheck
      self.phi = (self.p - 1) * (self.q - 1)
      if e: self.e = e
      else: self.e = self.get_e()
      if n: self.n = n
      else: self.n = self.p * self.q
      if d: self.d = d
      else: self.d = self.get_d()
      self.nbits = self.bitcount(self.n)
      self.quick_test()
  \<close>
  When \<^verbatim>\<open>get_e\<close> finds no exponent, \<^verbatim>\<open>self.e\<close> is \<^verbatim>\<open>None\<close> and its first use raises
  \<^verbatim>\<open>TypeError\<close>: in \<^verbatim>\<open>get_d\<close> (\<^verbatim>\<open>self.phi // None\<close>) or, with a given \<open>d\<close>, in
  \<^verbatim>\<open>quick_test\<close> (\<^verbatim>\<open>None * self.d\<close>).
\<close>

definition truthy :: "int option \<Rightarrow> bool" where
  "truthy v = (case v of None \<Rightarrow> False | Some i \<Rightarrow> i \<noteq> 0)"

definition choose_p :: "int option \<Rightarrow> int list \<Rightarrow> (int \<times> int list) option" where
  "choose_p p primes =
     (if truthy p then Some (the p, primes)
      else (case primes of [] \<Rightarrow> None | g # rest \<Rightarrow> Some (g, rest)))"

fun draw_until_distinct :: "int \<Rightarrow> int list \<Rightarrow> int option" where
  "draw_until_distinct pv [] = None"
| "draw_until_distinct pv (g # rest) = (if g = pv then draw_until_distinct pv rest else Some g)"

definition choose_q :: "int option \<Rightarrow> int \<Rightarrow> int list \<Rightarrow> int option" where
  "choose_q q pv primes = (if truthy q then q else draw_until_distinct pv primes)"

definition choose_e :: "int option \<Rightarrow> int \<Rightarrow> (error + int) option" where
  "choose_e e phi =
     (if truthy e then Some (Inr (the e))
      else (case get_e phi of
              Inl err \<Rightarrow> Some (Inl err)
            | Inr None \<Rightarrow> Some (Inl TypeError)
            | Inr (Some i) \<Rightarrow> Some (Inr i)))"

definition init_private ::
  "int option \<Rightarrow> int option \<Rightarrow> int option \<Rightarrow> int option \<Rightarrow> int option \<Rightarrow> int list \<Rightarrow> int
     \<Rightarrow> (error + RsaKeyPair) option" where
  "init_private p q e n d primes r =
     Option.bind (choose_p p primes) (\<lambda>(pv, rest).
     Option.bind (bitcount pv) (\<lambda>pbits.
     Option.bind (choose_q q pv rest) (\<lambda>qv.
       let phi = (pv - 1) * (qv - 1)
       in bind_res (choose_e e phi) (\<lambda>ev.
            let nv = (if truthy n then the n else pv * qv)
            in bind_res (if truthy d then Some (Inr (the d)) else get_d phi ev) (\<lambda>dv.
                 Option.bind (bitcount nv) (\<lambda>nb.
                   let k = \<lparr>self_p = Some pv, self_pbits = Some pbits, self_q = Some qv,
                            self_phi = Some phi, self_e = ev, self_n = nv, self_d = Some dv,
                            self_nbits = nb, self_only_pubkey = False\<rparr>
                   in bind_res (quick_test k r) (\<lambda>_. Some (Inr k))))))))"

definition init ::
  "int option \<Rightarrow> int option \<Rightarrow> int option \<Rightarrow> int option \<Rightarrow> int option \<Rightarrow> int \<Rightarrow> bool \<Rightarrow> bool
     \<Rightarrow> int list \<Rightarrow> int \<Rightarrow> (error + RsaKeyPair) option" where
  "init p q e n d keylength ignore_warning only_pubkey primes r =
     (if keylength < 1024 \<and> \<not> ignore_warning then Some (Inl KeyTooSmall)
      else if only_pubkey then
        (if \<not> truthy e \<or> \<not> truthy n then Some (Inl MissingPublicParameters)
         else Option.bind (bitcount (the n)) (\<lambda>nb.
                Some (Inr \<lparr>self_p = None, self_pbits = None, self_q = None, self_phi = None,
                           self_e = the e, self_n = the n, self_d = None,
                           self_nbits = nb, self_only_pubkey = True\<rparr>)))
      else init_private p q e n d primes r)"

text \<open>
  A key pair of the usual size, for the examples below: two 512-bit primes, the exponent
  \<^verbatim>\<open>get_e\<close> selects for them, and its inverse; the modulus has 1024 bits.
\<close>

definition sample_key :: RsaKeyPair where
  "sample_key =
     \<lparr>self_p = Some 8574284625403385406161374847820487153517682877888229452973974888429866567330680958043584716189455595364616930131125123999357355766860807237373270760434159,
      self_pbits = Some 512,
      self_q = Some 11981188134984164581540944035657311267650954650149965735035023660725129021248076699760892408601285649056958073431497184028090343142889222727715052709388757,
      self_phi = Some 102730117219860183432102507698209345441907725025743497682152185674924955903495329989792219518448479323430653815032288511135131921828366367077843007743534699004859377572613095829012189025353636209500679411679217603613104273907792183673344647293114381296408259069618230257245932099859364960520083941777363527448,
      self_e = 5,
      self_n = 102730117219860183432102507698209345441907725025743497682152185674924955903495329989792219518448479323430653815032288511135131921828366367077843007743534719560332137960163083531331072503152057378138207449874405612611653428903380762431002451770239172037652680644621792879553959547558274710550049030100833350363,
      self_d = Some 61638070331916110059261504618925607265144635015446098609291311404954973542097197993875331711069087594058392289019373106681079153097019820246705804646120819402915626543567857497407313415212181725700407647007530562167862564344675310204006788375868628777844955441770938154347559259915618976312050365066418116469,
      self_nbits = 1024,
      self_only_pubkey = False\<rparr>"

section \<open>The primality test: \<^verbatim>\<open>is_prime\<close>\<close>

text \<open>
  \<^verbatim>\<open>
  def is_prime(self, n, k=128):
      if n == 2 or n == 3:
          return True
      if n <= 1 or n % 2 == 0:
          return False
      s = 0
      r = n - 1
      while r & 1 == 0:
          s += 1
          r //= 2
      for _ in range(k):
          a = randrange(2, n - 1)
          x = pow(a, r, n)
          if x != 1 and x != n - 1:
              j = 1
              while j < s and x != n - 1:
                  x = pow(x, 2, n)
                  if x == 1:
                      return False
                  j += 1
              if x != n - 1:
                  return False
      return True
  \<close>
  \<open>split_even\<close> is the first loop (\<^verbatim>\<open>r & 1 == 0\<close> says that \<open>r\<close> is even); it would not end
  for \<open>r = 0\<close>, so it is a partial function into \<open>option\<close>. \<open>squarings n s j x\<close> is the inner
  \<^verbatim>\<open>while\<close> loop together with the test after it: it is \<open>False\<close> where the round returns
  \<^verbatim>\<open>False\<close> and \<open>True\<close> where the round goes on to the next one. \<open>rounds\<close> is the \<^verbatim>\<open>for\<close>
  loop from round \<open>i\<close> on; \<open>draw i\<close> is the value \<^verbatim>\<open>randrange(2, n - 1)\<close> returns in round
  \<open>i\<close>. Where \<^verbatim>\<open>pow\<close> is called the modulus \<open>n\<close> is at least 5 and the exponent is
  non-negative, so it returns the power reduced modulo \<open>n\<close>.
\<close>

partial_function (option) split_even :: "int \<Rightarrow> int \<Rightarrow> (int \<times> int) option" where
  "split_even s r = (if r mod 2 = 0 then split_even (s + 1) (r div 2) else Some (s, r))"

declare split_even.simps [code]

function squarings :: "int \<Rightarrow> int \<Rightarrow> int \<Rightarrow> int \<Rightarrow> bool" where
  "squarings n s j x =
     (if j < s \<and> x \<noteq> n - 1 then
        (let x' = x ^ 2 mod n
         in if x' = 1 then False else squarings n s (j + 1) x')
      else x = n - 1)"
  by pat_completeness auto
termination
  by (relation "measure (\<lambda>(n, s, j, x). nat (s - j))") auto

declare squarings.simps [simp del]

function rounds :: "int \<Rightarrow> int \<Rightarrow> int \<Rightarrow> (nat \<Rightarrow> int) \<Rightarrow> int \<Rightarrow> int \<Rightarrow> bool" where
  "rounds n s r draw k i =
     (if i < k then
        (let a = draw (nat i); x = a ^ nat r mod n
         in if x \<noteq> 1 \<and> x \<noteq> n - 1 then
              (if squarings n s 1 x then rounds n s r draw k (i + 1) else False)
            else rounds n s r draw k (i + 1))
      else True)"
  by pat_completeness auto
termination
  by (relation "measure (\<lambda>(n, s, r, draw, k, i). nat (k - i))") auto

declare rounds.simps [simp del]

definition is_prime :: "int \<Rightarrow> int \<Rightarrow> (nat \<Rightarrow> int) \<Rightarrow> bool option" where
  "is_prime n k draw =
     (if n = 2 \<or> n = 3 then Some True
      else if n \<le> 1 \<or> n mod 2 = 0 then Some False
      else (case split_even 0 (n - 1) of
              None \<Rightarrow> None
            | Some (s, r) \<Rightarrow> Some (rounds n s r draw k 0)))"

text \<open>A prime number: greater than 1 and without a divisor between 2 and itself.\<close>

definition prime_number :: "int \<Rightarrow> bool" where
  "prime_number p \<longleftrightarrow> 1 < p \<and> (\<forall>m \<in> {2..<p}. \<not> m dvd p)"

section \<open>Decimal strings\<close>

lemma digit_char_is_digit: "0 \<le> d \<Longrightarrow> d < 10 \<Longrightarrow> is_digit (digit_char d)"
  by (simp add: is_digit_def digit_char_def of_char_of)

lemma digit_val_digit_char: "0 \<le> d \<Longrightarrow> d < 10 \<Longrightarrow> digit_val (digit_char d) = d"
  by (simp add: digit_val_def digit_char_def of_char_of)

lemma digit_char_digit_val: "is_digit c \<Longrightarrow> digit_char (digit_val c) = c"
  by (simp add: is_digit_def digit_char_def digit_val_def)

lemma digit_val_range: "is_digit c \<Longrightarrow> 0 \<le> digit_val c \<and> digit_val c < 10"
  by (simp add: is_digit_def digit_val_def)

lemma is_digit_not_sign: "is_digit c \<Longrightarrow> c \<noteq> CHR ''-'' \<and> c \<noteq> CHR ''+''"
  by (auto simp: is_digit_def)

lemma is_digit_zero: "is_digit (CHR ''0'')" and digit_val_zero: "digit_val (CHR ''0'') = 0"
  by (simp_all add: is_digit_def digit_val_def)

lemma digit_char_0: "digit_char 0 = CHR ''0''"
  by code_simp

lemma digits_val_Nil: "digits_val [] = 0"
  by (simp add: digits_val_def)

lemma digits_val_snoc: "digits_val (xs @ [c]) = 10 * digits_val xs + digit_val c"
  by (simp add: digits_val_def)

lemma digits_val_bounds:
  "list_all is_digit ds \<Longrightarrow> 0 \<le> digits_val ds \<and> digits_val ds < 10 ^ length ds"
proof (induction ds rule: rev_induct)
  case Nil
  then show ?case by (simp add: digits_val_Nil)
next
  case (snoc c ds)
  then have "0 \<le> digits_val ds" "digits_val ds + 1 \<le> 10 ^ length ds" "0 \<le> digit_val c" "digit_val c < 10"
    using digit_val_range [of c] by auto
  then show ?case
    by (simp add: digits_val_snoc)
qed

lemma digits_val_append:
  "digits_val (xs @ ys) = digits_val xs * 10 ^ length ys + digits_val ys"
proof (induction ys rule: rev_induct)
  case Nil
  then show ?case by (simp add: digits_val_Nil)
next
  case (snoc y ys)
  have "digits_val (xs @ ys @ [y]) = 10 * digits_val (xs @ ys) + digit_val y"
    using digits_val_snoc [of "xs @ ys" y] by simp
  then show ?case
    by (simp add: snoc digits_val_snoc algebra_simps)
qed

lemma digits_val_zeros: "digits_val (replicate k (CHR ''0'')) = 0"
  by (induction k) (simp_all add: digits_val_def digit_val_zero)

lemma str_digits_props:
  "0 \<le> n \<Longrightarrow> list_all is_digit (str_digits n) \<and> str_digits n \<noteq> [] \<and> digits_val (str_digits n) = n"
proof (induction n rule: str_digits.induct)
  case (1 n)
  show ?case
  proof (cases "n < 10")
    case True
    with "1.prems" show ?thesis
      using digits_val_snoc [of "[]" "digit_char n"]
      by (simp add: str_digits.simps [of n] digit_char_is_digit digit_val_digit_char digits_val_Nil)
  next
    case False
    then have "0 \<le> n div 10" by simp
    with "1.IH" False have ih: "list_all is_digit (str_digits (n div 10))"
      "digits_val (str_digits (n div 10)) = n div 10" by simp_all
    have m: "0 \<le> n mod 10" "n mod 10 < 10" by simp_all
    from False ih m show ?thesis
      by (simp add: str_digits.simps [of n] digits_val_snoc digit_char_is_digit digit_val_digit_char)
  qed
qed

lemma str_digits_length: "0 \<le> n \<Longrightarrow> n < 10 ^ k \<Longrightarrow> 0 < k \<Longrightarrow> length (str_digits n) \<le> k"
proof (induction n arbitrary: k rule: str_digits.induct)
  case (1 n)
  show ?case
  proof (cases "n < 10")
    case True
    with "1.prems" show ?thesis by (simp add: str_digits.simps [of n])
  next
    case False
    with "1.prems" obtain j where k: "k = Suc j"
      by (cases k) auto
    from False "1.prems" k have "0 < j"
      by (cases j) auto
    moreover from "1.prems" k have "n div 10 < 10 ^ j"
      by simp
    moreover from False have "0 \<le> n div 10" by simp
    ultimately have "length (str_digits (n div 10)) \<le> j"
      using "1.IH" [of j] False by simp
    with False k show ?thesis by (simp add: str_digits.simps [of n])
  qed
qed

lemma digits_val_positive:
  "list_all is_digit ds \<Longrightarrow> ds \<noteq> [] \<Longrightarrow> hd ds \<noteq> CHR ''0'' \<Longrightarrow> 1 \<le> digits_val ds"
proof (induction ds rule: rev_induct)
  case Nil
  then show ?case by simp
next
  case (snoc c ds)
  show ?case
  proof (cases "ds = []")
    case True
    with snoc.prems have "is_digit c" "c \<noteq> CHR ''0''" by simp_all
    then have "digit_val c \<noteq> 0"
      using digit_char_digit_val [of c] digit_char_0 by auto
    with \<open>is_digit c\<close> digit_val_range [of c] True show ?thesis
      using digits_val_snoc [of "[]" c] by (simp add: digits_val_Nil)
  next
    case False
    with snoc have "1 \<le> digits_val ds" by simp
    moreover from snoc.prems have "0 \<le> digit_val c"
      using digit_val_range [of c] by simp
    ultimately show ?thesis by (simp add: digits_val_snoc)
  qed
qed

lemma str_digits_digits_val:
  "list_all is_digit ds \<Longrightarrow> ds \<noteq> [] \<Longrightarrow> hd ds \<noteq> CHR ''0'' \<Longrightarrow> str_digits (digits_val ds) = ds"
proof (induction ds rule: rev_induct)
  case Nil
  then show ?case by simp
next
  case (snoc c ds)
  from snoc.prems have c: "is_digit c" by simp
  note r = digit_val_range [OF c]
  show ?case
  proof (cases "ds = []")
    case True
    with c r show ?thesis
      using digits_val_snoc [of "[]" c]
      by (simp add: digits_val_Nil str_digits.simps [of "digit_val c"] digit_char_digit_val)
  next
    case False
    with snoc.prems have p: "list_all is_digit ds" "hd ds \<noteq> CHR ''0''" by simp_all
    with False have "1 \<le> digits_val ds" by (simp add: digits_val_positive)
    with r have big: "\<not> 10 * digits_val ds + digit_val c < 10" by simp
    from r have "(10 * digits_val ds + digit_val c) div 10 = digits_val ds"
      "(10 * digits_val ds + digit_val c) mod 10 = digit_val c" by simp_all
    with big snoc.IH [OF p(1) False p(2)] c show ?thesis
      by (simp add: digits_val_snoc str_digits.simps [of "10 * digits_val ds + digit_val c"]
          digit_char_digit_val)
  qed
qed


section \<open>Properties of the codec\<close>

lemma max_str_digits_pos: "0 < max_str_digits"
  by (simp add: max_str_digits_def)

lemma str_digits_long:
  assumes "10 ^ k \<le> n"
  shows "k < length (str_digits n)"
proof (rule ccontr)
  assume "\<not> k < length (str_digits n)"
  then have "length (str_digits n) \<le> k" by simp
  then have le: "(10::int) ^ length (str_digits n) \<le> 10 ^ k"
    by (intro power_increasing) simp_all
  have "(0::int) < 10 ^ k" by simp
  with assms have "0 \<le> n" by linarith
  then have "list_all is_digit (str_digits n)" "digits_val (str_digits n) = n"
    using str_digits_props [of n] by simp_all
  with digits_val_bounds [of "str_digits n"] have "n < 10 ^ length (str_digits n)"
    by simp
  with le assms show False by linarith
qed

lemma py_str_small:
  assumes "0 \<le> m" "m < 10 ^ max_str_digits"
  shows "py_str m = Inr (str_digits m)"
proof -
  from assms have "length (str_digits m) \<le> max_str_digits"
    by (intro str_digits_length max_str_digits_pos)
  with assms(1) show ?thesis by (simp add: py_str_def Let_def)
qed

lemma py_str_long:
  assumes "10 ^ max_str_digits \<le> m"
  shows "py_str m = Inl ValueError"
proof -
  have "(0::int) < 10 ^ max_str_digits" by simp
  with assms have "\<not> m < 0" by linarith
  with str_digits_long [OF assms] show ?thesis by (simp add: py_str_def Let_def)
qed

lemma zfill_digits:
  assumes "list_all is_digit ds" "ds \<noteq> []"
  shows "zfill w ds = replicate (w - length ds) (CHR ''0'') @ ds"
proof -
  from assms obtain c cs where ds: "ds = c # cs" by (cases ds) auto
  with assms have "c \<noteq> CHR ''-''" "c \<noteq> CHR ''+''"
    using is_digit_not_sign [of c] by auto
  with ds show ?thesis by (simp add: zfill_def)
qed

lemma enc_small:
  assumes "0 \<le> c" "c < 10000"
  shows "length (enc c) = 4" "list_all is_digit (enc c)" "digits_val (enc c) = c"
    "py_str (py_ord c) = Inr (str_digits c)"
proof -
  let ?ds = "str_digits c"
  from assms have p: "list_all is_digit ?ds" "?ds \<noteq> []" "digits_val ?ds = c"
    using str_digits_props [of c] by simp_all
  from assms have l: "length ?ds \<le> 4"
    using str_digits_length [of c 4] by simp
  have e: "enc c = replicate (4 - length ?ds) (CHR ''0'') @ ?ds"
    by (simp add: enc_def zfill_digits [OF p(1,2)])
  from l show "length (enc c) = 4" by (simp add: e)
  from p show "list_all is_digit (enc c)" by (auto simp: e is_digit_zero list_all_iff)
  from p show "digits_val (enc c) = c" by (simp add: e digits_val_append digits_val_zeros)
  from l assms(1) show "py_str (py_ord c) = Inr (str_digits c)"
    by (simp add: py_str_def py_ord_def Let_def max_str_digits_def)
qed

lemma encode_loop_small:
  "\<forall>c \<in> set s. 0 \<le> c \<and> c < 10000 \<Longrightarrow> encode_loop ns s = Inr (ns @ concat (map enc s))"
proof (induction s arbitrary: ns)
  case Nil
  then show ?case by simp
next
  case (Cons c s)
  then have "py_str (py_ord c) = Inr (str_digits c)"
    using enc_small(4) [of c] by simp
  with Cons show ?case by (simp add: enc_def)
qed

lemma slice_concat:
  "\<forall>b \<in> set bs. length b = k \<Longrightarrow> n < length bs \<Longrightarrow> take k (drop (n * k) (concat bs)) = bs ! n"
proof (induction bs arbitrary: n)
  case Nil
  then show ?case by simp
next
  case (Cons b bs)
  show ?case
  proof (cases n)
    case 0
    with Cons.prems show ?thesis by simp
  next
    case (Suc m)
    with Cons show ?thesis by simp
  qed
qed

lemma length_concat_blocks:
  "\<forall>b \<in> set bs. length b = k \<Longrightarrow> length (concat bs) = length bs * k"
  by (induction bs) simp_all

lemma py_int_digits:
  assumes "list_all is_digit ds" "ds \<noteq> []" "length ds \<le> max_str_digits"
  shows "py_int ds = Inr (digits_val ds)"
proof -
  from assms obtain c cs where ds: "ds = c # cs" by (cases ds) auto
  with assms have "c \<noteq> CHR ''-''"
    using is_digit_not_sign [of c] by auto
  with ds assms show ?thesis by (simp add: py_int_def)
qed

lemma py_int_long:
  assumes "list_all is_digit ds" "max_str_digits < length ds"
  shows "py_int ds = Inl ValueError"
proof -
  from assms obtain c cs where ds: "ds = c # cs" by (cases ds) auto
  with assms have "c \<noteq> CHR ''-''"
    using is_digit_not_sign [of c] by auto
  with ds assms show ?thesis by (simp add: py_int_def)
qed

lemma decode_loop_digits:
  assumes "list_all is_digit msg"
    and "\<forall>n \<in> set ns. n * 4 + 4 \<le> length msg"
  shows "decode_loop msg ns cs = Inr (cs @ map (\<lambda>n. digits_val (take 4 (drop (n * 4) msg))) ns)"
  using assms(2)
proof (induction ns arbitrary: cs)
  case Nil
  then show ?case by simp
next
  case (Cons n ns)
  let ?g = "take 4 (drop (n * 4) msg)"
  from Cons.prems have "n * 4 + 4 \<le> length msg" by simp
  then have "4 \<le> length msg - n * 4" by arith
  then have len: "length ?g = 4" by simp
  from assms(1) have dg: "list_all is_digit ?g"
    by (auto simp: list_all_iff dest: in_set_takeD in_set_dropD)
  from len have ne: "?g \<noteq> []" by auto
  from len have short: "length ?g \<le> max_str_digits"
    by (simp add: max_str_digits_def)
  from digits_val_bounds [OF dg] len have "0 \<le> digits_val ?g" "digits_val ?g < 1114112"
    by simp_all
  then have "py_chr (digits_val ?g) = Inr (digits_val ?g)"
    by (simp add: py_chr_def)
  with Cons py_int_digits [OF dg ne short] show ?case by simp
qed

lemma groups4_slices:
  "map (\<lambda>n. take 4 (drop (n * 4) msg)) [0..<length msg div 4] = groups4 msg"
proof (induction msg rule: groups4.induct)
  case (1 a b c d rest)
  have "length (a # b # c # d # rest) div 4 = Suc (length rest div 4)"
    by simp
  then have "[0..<length (a # b # c # d # rest) div 4] = 0 # map Suc [0..<length rest div 4]"
    by (simp only: map_Suc_upt upt_conv_Cons [of 0] zero_less_Suc)
  moreover have "\<And>k. drop (4 + k) (a # b # c # d # rest) = drop k rest"
    by (simp add: numeral_eq_Suc)
  ultimately show ?case
    using 1 by (simp add: comp_def del: upt_Suc)
qed simp_all


lemma encoded_digits:
  assumes "\<forall>c \<in> set s. 0 \<le> c \<and> c < 10000"
  shows "list_all is_digit (''1421'' @ concat (map enc s))"
    and "length (''1421'' @ concat (map enc s)) = 4 + 4 * length s"
proof -
  have "list_all is_digit ''1421''"
    by (simp add: is_digit_def)
  moreover from assms have "list_all is_digit (concat (map enc s))"
    using enc_small(2) by (induction s) simp_all
  ultimately show "list_all is_digit (''1421'' @ concat (map enc s))" by simp
  have "\<forall>b \<in> set (map enc s). length b = 4"
    using assms enc_small(1) by auto
  from length_concat_blocks [OF this]
  show "length (''1421'' @ concat (map enc s)) = 4 + 4 * length s" by simp
qed

lemma stringToNumber_short:
  assumes "\<forall>c \<in> set s. 0 \<le> c \<and> c < 10000" and "length s \<le> 1074"
  shows "stringToNumber s = Inr (digits_val (''1421'' @ concat (map enc s)))"
    and "py_str (digits_val (''1421'' @ concat (map enc s))) = Inr (''1421'' @ concat (map enc s))"
proof -
  let ?ns = "''1421'' @ concat (map enc s)"
  note dg = encoded_digits(1) [OF assms(1)]
  have ne: "?ns \<noteq> []" by simp
  from assms(2) have short: "length ?ns \<le> max_str_digits"
    unfolding encoded_digits(2) [OF assms(1)] by (simp add: max_str_digits_def)
  have "encode_loop ''1421'' s = Inr ?ns"
    by (rule encode_loop_small [OF assms(1)])
  then show "stringToNumber s = Inr (digits_val ?ns)"
    using py_int_digits [OF dg ne short] by (simp add: stringToNumber_def)
  have nn: "0 \<le> digits_val ?ns"
    using digits_val_bounds [OF dg] by simp
  have "str_digits (digits_val ?ns) = ?ns"
    by (rule str_digits_digits_val [OF dg ne]) simp
  with nn short show "py_str (digits_val ?ns) = Inr ?ns"
    by (simp add: py_str_def Let_def)
qed

lemma stringToNumber_long:
  assumes "\<forall>c \<in> set s. 0 \<le> c \<and> c < 10000" and "1074 < length s"
  shows "stringToNumber s = Inl ValueError"
proof -
  let ?ns = "''1421'' @ concat (map enc s)"
  note dg = encoded_digits(1) [OF assms(1)]
  from assms(2) have long: "max_str_digits < length ?ns"
    unfolding encoded_digits(2) [OF assms(1)] by (simp add: max_str_digits_def)
  have "encode_loop ''1421'' s = Inr ?ns"
    by (rule encode_loop_small [OF assms(1)])
  then show ?thesis
    using py_int_long [OF dg long] by (simp add: stringToNumber_def)
qed

text \<open>
  Claim C2, as stated, fails. For the string of 1075 characters \<open>a\<close> (code point 97) the
  digit string \<open>ns\<close> has 4304 digits, more than \<^verbatim>\<open>int\<close> converts: \<^verbatim>\<open>stringToNumber\<close> raises
  \<^verbatim>\<open>ValueError\<close>, so there is nothing to decode.
\<close>

theorem codec_roundtrip_long_string:
  "stringToNumber (replicate 1075 97) = Inl ValueError"
  by (rule stringToNumber_long) simp_all

text \<open>
  Claim C2, amended. For every string \<open>s\<close> of at most 1074 characters, all with a code
  point below 10000, \<^verbatim>\<open>numberToString(stringToNumber(s))\<close> is \<open>s\<close>: the encoder returns an
  integer \<open>m\<close> and the decoder returns \<open>s\<close> on it; the empty string and characters that are
  padded with zeros are included. For a longer string of such characters the encoder
  raises \<^verbatim>\<open>ValueError\<close>, because \<^verbatim>\<open>int\<close> refuses more than 4300 digits.
\<close>

theorem codec_roundtrip:
  assumes "\<forall>c \<in> set s. 0 \<le> c \<and> c < 10000"
  shows "(length s \<le> 1074 \<longrightarrow> (\<exists>m. stringToNumber s = Inr m \<and> numberToString m = Inr s))
         \<and> (1074 < length s \<longrightarrow> stringToNumber s = Inl ValueError)"
proof (intro conjI impI)
  assume "1074 < length s"
  with assms show "stringToNumber s = Inl ValueError"
    by (rule stringToNumber_long)
next
  assume short: "length s \<le> 1074"
  let ?body = "concat (map enc s)"
  let ?m = "digits_val (''1421'' @ ?body)"
  have blocks: "\<forall>b \<in> set (map enc s). length b = 4"
    using assms enc_small(1) by auto
  have len: "length ?body = length s * 4"
    using length_concat_blocks [OF blocks] by simp
  have dg: "list_all is_digit ?body"
    using encoded_digits(1) [OF assms] by simp
  have "py_str ?m = Inr (''1421'' @ ?body)"
    by (rule stringToNumber_short(2) [OF assms short])
  then have "numberToString ?m = decode_loop ?body [0..<length s] []"
    by (simp add: numberToString_def strip_marker_def len)
  also have "\<dots> = Inr (map (\<lambda>n. digits_val (take 4 (drop (n * 4) ?body))) [0..<length s])"
    using decode_loop_digits [OF dg, of "[0..<length s]" "[]"] by (simp add: len)
  also have "map (\<lambda>n. digits_val (take 4 (drop (n * 4) ?body))) [0..<length s] = s"
  proof (rule nth_equalityI)
    show "length (map (\<lambda>n. digits_val (take 4 (drop (n * 4) ?body))) [0..<length s]) = length s"
      by simp
  next
    fix i
    assume "i < length (map (\<lambda>n. digits_val (take 4 (drop (n * 4) ?body))) [0..<length s])"
    then have i: "i < length s" by simp
    then have "take 4 (drop (i * 4) ?body) = enc (s ! i)"
      using slice_concat [OF blocks, of i] by simp
    moreover from i assms have "digits_val (enc (s ! i)) = s ! i"
      using enc_small(3) [of "s ! i"] by simp
    ultimately show "map (\<lambda>n. digits_val (take 4 (drop (n * 4) ?body))) [0..<length s] ! i = s ! i"
      using i by simp
  qed
  finally have "numberToString ?m = Inr s" .
  with stringToNumber_short(1) [OF assms short]
  show "\<exists>m. stringToNumber s = Inr m \<and> numberToString m = Inr s" by blast
qed

theorem codec_roundtrip_witness:
  "\<exists>m. stringToNumber [72, 105, 33] = Inr m \<and> numberToString m = Inr [72, 105, 33]"
  using codec_roundtrip [of "[72, 105, 33]"] by simp

text \<open>
  Claim C4 holds of the specification and not of the code. \<^verbatim>\<open>stringToNumber\<close> has no
  check on the code points: for the one-character string U+1F600 (code point 128512) it
  returns the integer 1421128512 instead of rejecting the input. The character has
  contributed six digits, against the docstring ("each character to a number of len 4"),
  and \<^verbatim>\<open>numberToString\<close>, which reads groups of four digits, decodes that integer to the
  different character U+0505 (code point 1285).
\<close>

theorem stringToNumber_accepts_wide_character:
  "stringToNumber [128512] = Inr 1421128512 \<and> numberToString 1421128512 = Inr [1285]"
  by code_simp

lemma numberToString_digits:
  assumes "0 \<le> m" "m < 10 ^ max_str_digits"
  shows "numberToString m =
           Inr (map digits_val (groups4 (strip_marker (str_digits m))))"
    and "length (groups4 (strip_marker (str_digits m))) = length (strip_marker (str_digits m)) div 4"
proof -
  let ?body = "strip_marker (str_digits m)"
  from assms(1) have "list_all is_digit (str_digits m)"
    using str_digits_props [of m] by simp
  then have dg: "list_all is_digit ?body"
    by (auto simp: strip_marker_def list_all_iff dest: in_set_dropD)
  have "numberToString m = decode_loop ?body [0..<length ?body div 4] []"
    by (simp add: numberToString_def Let_def py_str_small [OF assms])
  also have "\<dots> = Inr (map (\<lambda>n. digits_val (take 4 (drop (n * 4) ?body))) [0..<length ?body div 4])"
  proof -
    have "\<forall>n \<in> set [0..<length ?body div 4]. n * 4 + 4 \<le> length ?body"
      by auto
    from decode_loop_digits [OF dg this] show ?thesis by simp
  qed
  also have "map (\<lambda>n. digits_val (take 4 (drop (n * 4) ?body))) [0..<length ?body div 4]
      = map digits_val (groups4 ?body)"
    using groups4_slices [of ?body, symmetric] by (simp add: comp_def)
  finally show "numberToString m = Inr (map digits_val (groups4 ?body))" .
  show "length (groups4 ?body) = length ?body div 4"
    using groups4_slices [of ?body, symmetric] by simp
qed

lemma numberToString_long:
  assumes "10 ^ max_str_digits \<le> m"
  shows "numberToString m = Inl ValueError"
  by (simp add: numberToString_def py_str_long [OF assms])

text \<open>
  Claim C10, as stated, fails. \<open>10 ^ 4300\<close> has 4301 digits, more than \<^verbatim>\<open>str\<close> converts:
  \<^verbatim>\<open>numberToString\<close> raises \<^verbatim>\<open>ValueError\<close> at its first line.
\<close>

theorem numberToString_raises_on_long_integer:
  "numberToString (10 ^ 4300) = Inl ValueError"
proof -
  have "(10::int) ^ max_str_digits \<le> 10 ^ max_str_digits" by (rule order_refl)
  then have "numberToString (10 ^ max_str_digits) = Inl ValueError"
    by (rule numberToString_long)
  then show ?thesis unfolding max_str_digits_def .
qed

text \<open>
  Claim C10, amended. \<^verbatim>\<open>numberToString\<close> raises no error on a non-negative integer \<open>m\<close> of
  at most 4300 digits (\<open>m < 10 ^ 4300\<close>; \<open>max_str_digits\<close> is 4300). Its result is read off
  the decimal digits of \<open>m\<close>: a leading \<open>1421\<close> is removed if present, the rest is cut left
  to right into groups of four digits (\<open>groups4\<close>), each group is one character (the code
  point it denotes), and the \<open>length mod 4\<close> digits left at the end are dropped, so the
  result has \<open>length div 4\<close> characters. On an integer with more digits (\<open>m \<ge> 10 ^ 4300\<close>)
  it raises \<^verbatim>\<open>ValueError\<close>, because \<^verbatim>\<open>str\<close> refuses to convert it.
\<close>

theorem numberToString_total:
  assumes "0 \<le> m"
  shows "(m < 10 ^ max_str_digits \<longrightarrow>
            numberToString m =
              Inr (map digits_val
                     (groups4 (if take 4 (str_digits m) = ''1421'' then drop 4 (str_digits m)
                               else str_digits m)))
            \<and> length (groups4 (if take 4 (str_digits m) = ''1421'' then drop 4 (str_digits m)
                                else str_digits m))
              = length (if take 4 (str_digits m) = ''1421'' then drop 4 (str_digits m)
                        else str_digits m) div 4)
         \<and> (10 ^ max_str_digits \<le> m \<longrightarrow> numberToString m = Inl ValueError)"
  using numberToString_digits [OF assms] numberToString_long [of m]
  unfolding strip_marker_def by blast

theorem numberToString_total_witness:
  "numberToString 72010512 = Inr [7201, 512] \<and> numberToString 14210072010512 = Inr [72, 105]"
proof -
  have small: "(10::int) ^ 14 \<le> 10 ^ max_str_digits"
    by (rule power_increasing) (simp_all add: max_str_digits_def)
  have "(72010512::int) < 10 ^ 14" "(14210072010512::int) < 10 ^ 14" by simp_all
  with small have lt: "(72010512::int) < 10 ^ max_str_digits"
    "(14210072010512::int) < 10 ^ max_str_digits" by linarith+
  have d: "str_digits 72010512 = ''72010512''" "str_digits 14210072010512 = ''14210072010512''"
    by code_simp+
  have v: "map digits_val (groups4 ''72010512'') = [7201, 512]"
    "map digits_val (groups4 ''0072010512'') = [72, 105]"
    by code_simp+
  from numberToString_total [of 72010512] lt(1) d(1) v(1)
  have "numberToString 72010512 = Inr [7201, 512]" by simp
  moreover from numberToString_total [of 14210072010512] lt(2) d(2) v(2)
  have "numberToString 14210072010512 = Inr [72, 105]" by simp
  ultimately show ?thesis by simp
qed

section \<open>Properties of \<^verbatim>\<open>get_e\<close>\<close>

lemma factors_divisors:
  assumes "0 < n"
  shows "\<exists>d. factors n = Inr d \<and> (\<forall>j. 0 < j \<and> j dvd n \<longrightarrow> j \<in> d)"
proof -
  let ?d = "set (concat (map (\<lambda>i. [i, n div i]) (filter (\<lambda>i. n mod i = 0) (sqrt_range n))))"
  have "j \<in> ?d" if j: "0 < j" "j dvd n" for j
  proof -
    from j obtain k where k: "n = j * k" by (auto simp: dvd_def)
    with assms j have kpos: "0 < k"
      by (simp add: zero_less_mult_iff)
    from k j kpos have jk: "j \<le> n" "k \<le> n" by (simp_all add: mult_le_cancel_left1 mult_le_cancel_right1)
    show ?thesis
    proof (cases "j \<le> k")
      case True
      with j have "j * j \<le> n" by (simp add: k mult_left_mono)
      with j jk have "j \<in> set (filter (\<lambda>i. n mod i = 0) (sqrt_range n))"
        by (auto simp: sqrt_range_def)
      then show ?thesis by auto
    next
      case False
      with kpos have "k * k \<le> n" by (simp add: k mult_right_mono)
      moreover have "n mod k = 0" by (simp add: k)
      ultimately have "k \<in> set (filter (\<lambda>i. n mod i = 0) (sqrt_range n))"
        using kpos jk by (auto simp: sqrt_range_def)
      moreover from kpos have "n div k = j" by (simp add: k)
      ultimately show ?thesis by force
    qed
  qed
  with assms show ?thesis by (simp add: factors_def)
qed

lemma get_e_from_sound:
  "get_e_from phi i = Inr (Some r) \<Longrightarrow> odd i \<Longrightarrow> 3 \<le> i \<Longrightarrow>
     odd r \<and> 3 \<le> r \<and> r \<le> 9999 \<and> (\<forall>j. 1 < j \<and> j dvd r \<longrightarrow> \<not> j dvd phi)"
proof (induction phi i rule: get_e_from.induct)
  case (1 phi i)
  show ?case
  proof (cases "i < 10001")
    case False
    with "1.prems" show ?thesis by (simp add: get_e_from.simps [of phi i])
  next
    case True
    with "1.prems" have ipos: "0 < i" by simp
    from factors_divisors [OF ipos] obtain d where d: "factors i = Inr d"
      "\<forall>j. 0 < j \<and> j dvd i \<longrightarrow> j \<in> d" by blast
    show ?thesis
    proof (cases "\<exists>j \<in> d - {1}. phi mod j = 0")
      case hit: True
      with True d "1.prems" have "get_e_from phi (i + 2) = Inr (Some r)"
        by (simp add: get_e_from.simps [of phi i])
      moreover from "1.prems" have "odd (i + 2)" "3 \<le> i + 2" by simp_all
      ultimately show ?thesis
        using "1.IH" [OF True d(1) hit] by simp
    next
      case miss: False
      with True d "1.prems" have r: "r = i"
        by (simp add: get_e_from.simps [of phi i])
      have "\<not> j dvd phi" if "1 < j" "j dvd r" for j
      proof
        assume "j dvd phi"
        then have "phi mod j = 0" by simp
        moreover from that d(2) r have "j \<in> d - {1}" by auto
        ultimately show False using miss by auto
      qed
      moreover from True "1.prems" have "i \<le> 9999" by presburger
      ultimately show ?thesis using "1.prems" r by simp
    qed
  qed
qed

text \<open>
  Claim C5. Whenever \<^verbatim>\<open>get_e\<close> returns an integer \<open>i\<close> for the totient \<open>phi\<close>, that \<open>i\<close> is
  odd, lies between 3 and 9999, and is coprime to \<open>phi\<close>: no divisor of \<open>i\<close> greater than 1
  divides \<open>phi\<close>, hence \<open>gcd i phi = 1\<close>.
\<close>

theorem get_e_coprime:
  assumes "get_e phi = Inr (Some i)"
  shows "odd i \<and> 3 \<le> i \<and> i \<le> 9999
         \<and> (\<forall>j. 1 < j \<and> j dvd i \<longrightarrow> \<not> j dvd phi) \<and> gcd i phi = 1"
proof -
  from assms have s: "odd i \<and> 3 \<le> i \<and> i \<le> 9999 \<and> (\<forall>j. 1 < j \<and> j dvd i \<longrightarrow> \<not> j dvd phi)"
    using get_e_from_sound [of phi 3 i] by (simp add: get_e_def)
  have "gcd i phi = 1"
  proof (rule ccontr)
    assume ne: "gcd i phi \<noteq> 1"
    from s have "gcd i phi \<noteq> 0" by auto
    moreover have "0 \<le> gcd i phi" by simp
    ultimately have "1 < gcd i phi" using ne by linarith
    moreover have "gcd i phi dvd i" "gcd i phi dvd phi" by simp_all
    ultimately show False using s by blast
  qed
  with s show ?thesis by simp
qed

theorem get_e_coprime_witness:
  "get_e 3120 = Inr (Some 7) \<and> odd (7::int) \<and> (3::int) \<le> 7 \<and> (7::int) \<le> 9999
     \<and> \<not> (7::int) dvd 3120 \<and> gcd (7::int) 3120 = 1"
proof -
  have g: "get_e 3120 = Inr (Some 7)" by code_simp
  from get_e_coprime [OF g] g show ?thesis by simp
qed

section \<open>Properties of \<^verbatim>\<open>get_d\<close>\<close>

lemma add_phi_while_negative_total:
  assumes "0 < phi"
  shows "\<exists>v. add_phi_while_negative phi t = Some v \<and> 0 \<le> v \<and> v mod phi = t mod phi"
proof (induction "nat (- t)" arbitrary: t rule: less_induct)
  case less
  show ?case
  proof (cases "t < 0")
    case False
    then show ?thesis by (simp add: add_phi_while_negative.simps [of phi t])
  next
    case True
    with assms have "nat (- (t + phi)) < nat (- t)" by simp
    from less [OF this] obtain v where
      "add_phi_while_negative phi (t + phi) = Some v" "0 \<le> v" "v mod phi = (t + phi) mod phi"
      by blast
    with True show ?thesis by (simp add: add_phi_while_negative.simps [of phi t])
  qed
qed

lemma add_phi_while_negative_nonneg:
  "0 \<le> t \<Longrightarrow> add_phi_while_negative phi t = Some t"
  by (simp add: add_phi_while_negative.simps [of phi t])

lemma get_d_loop_step:
  assumes "b \<noteq> 1" "b \<noteq> 0" "add_phi_while_negative phi (x - a div b * y) = Some v"
  shows "get_d_loop phi (a, b) (x, y) = get_d_loop phi (b, a mod b) (y, v)"
proof -
  have "a - a div b * b = a mod b"
    by (simp add: minus_div_mult_eq_mod)
  with assms show ?thesis
    by (subst get_d_loop.simps) (simp add: Let_def)
qed

lemma get_d_loop_inverse:
  assumes phi: "1 < phi"
  shows "0 < b \<Longrightarrow> gcd a b = 1 \<Longrightarrow> 0 \<le> y \<Longrightarrow>
         (x * e) mod phi = a mod phi \<Longrightarrow> (y * e) mod phi = b mod phi \<Longrightarrow>
         \<exists>d. get_d_loop phi (a, b) (x, y) = Some (Inr d) \<and> 0 \<le> d \<and> (e * d) mod phi = 1"
proof (induction "nat b" arbitrary: a b x y rule: less_induct)
  case less
  show ?case
  proof (cases "b = 1")
    case True
    with less.prems phi have "(e * y) mod phi = 1"
      by (simp add: mult.commute)
    with True less.prems show ?thesis
      by (subst get_d_loop.simps) simp
  next
    case False
    with less.prems have b2: "1 < b" "b \<noteq> 0" by simp_all
    from phi obtain v where v: "add_phi_while_negative phi (x - a div b * y) = Some v"
      "0 \<le> v" "v mod phi = (x - a div b * y) mod phi"
      using add_phi_while_negative_total [of phi "x - a div b * y"] by auto
    have step: "get_d_loop phi (a, b) (x, y) = get_d_loop phi (b, a mod b) (y, v)"
      by (rule get_d_loop_step [OF False b2(2) v(1)])
    have g: "gcd b (a mod b) = 1"
      using less.prems(2) by (simp add: gcd.commute [of b] gcd_red_int [symmetric])
    have "a mod b \<noteq> 0"
    proof
      assume "a mod b = 0"
      with g have "\<bar>b\<bar> = 1" by simp
      with b2 show False by simp
    qed
    moreover from b2 have "0 \<le> a mod b" "a mod b < b" by simp_all
    ultimately have pos: "0 < a mod b" and dec: "nat (a mod b) < nat b" by simp_all
    have "(v * e) mod phi = ((x - a div b * y) * e) mod phi"
      using v(3) by (metis mod_mult_left_eq)
    also have "(x - a div b * y) * e = x * e - a div b * (y * e)"
      by (simp add: algebra_simps)
    also have "(x * e - a div b * (y * e)) mod phi = (a - a div b * b) mod phi"
      using less.prems(4,5) by (metis mod_diff_cong mod_mult_right_eq)
    also have "a - a div b * b = a mod b"
      by (simp add: minus_div_mult_eq_mod)
    finally have c: "(v * e) mod phi = (a mod b) mod phi" .
    from less.hyps [OF dec pos g v(2) less.prems(5) c] step show ?thesis by simp
  qed
qed

text \<open>
  Claim C3. For every \<open>phi > 1\<close> and every \<open>e \<ge> 1\<close> with \<open>gcd e phi = 1\<close>, \<^verbatim>\<open>get_d\<close> returns
  (it does not run forever and does not raise), and the \<open>d\<close> it returns is non-negative
  with \<open>(e * d) mod phi = 1\<close>.
\<close>

theorem get_d_inverse:
  assumes "1 < phi" "1 \<le> e" "gcd e phi = 1"
  shows "\<exists>d. get_d phi e = Some (Inr d) \<and> 0 \<le> d \<and> (e * d) mod phi = 1"
proof -
  from assms have "0 < e" "gcd phi e = 1" "(0::int) \<le> 1"
    "(phi * e) mod phi = phi mod phi" "(1 * e) mod phi = e mod phi"
    by (simp_all add: gcd.commute)
  from get_d_loop_inverse [OF assms(1) this] show ?thesis
    by (simp add: get_d_def)
qed

theorem get_d_inverse_witness:
  "\<exists>d. get_d 3120 7 = Some (Inr d) \<and> 0 \<le> d \<and> (7 * d) mod 3120 = 1"
proof -
  have "gcd (7::int) 3120 = 1" by code_simp
  with get_d_inverse [of 3120 7] show ?thesis by simp
qed

text \<open>
  Claim C8, as stated, fails. \<^verbatim>\<open>get_d\<close> has no check for a missing inverse: with
  \<open>phi = 4\<close> and \<open>e = 2\<close> the first pair becomes \<open>[2, 0]\<close> and the next division raises
  \<^verbatim>\<open>ZeroDivisionError\<close>.
\<close>

theorem get_d_zero_division_example:
  "get_d 4 2 = Some (Inl ZeroDivisionError)"
  by code_simp

lemma get_d_loop_no_inverse:
  assumes phi: "0 < phi"
  shows "gcd a b \<noteq> 1 \<Longrightarrow> get_d_loop phi (a, b) (x, y) = Some (Inl ZeroDivisionError)"
proof (induction "nat \<bar>b\<bar>" arbitrary: a b x y rule: less_induct)
  case less
  from less.prems have b1: "b \<noteq> 1" by auto
  show ?case
  proof (cases "b = 0")
    case True
    then show ?thesis by (subst get_d_loop.simps) simp
  next
    case False
    from phi obtain v where v: "add_phi_while_negative phi (x - a div b * y) = Some v"
      using add_phi_while_negative_total [of phi "x - a div b * y"] by auto
    have step: "get_d_loop phi (a, b) (x, y) = get_d_loop phi (b, a mod b) (y, v)"
      by (rule get_d_loop_step [OF b1 False v])
    have g: "gcd b (a mod b) \<noteq> 1"
      using less.prems by (simp add: gcd.commute [of b] gcd_red_int [symmetric])
    from False have "\<bar>a mod b\<bar> < \<bar>b\<bar>"
      by (rule abs_mod_less)
    then have "nat \<bar>a mod b\<bar> < nat \<bar>b\<bar>" by simp
    from less.hyps [OF this g] step show ?thesis by simp
  qed
qed

text \<open>
  Claim C8, amended. For every \<open>phi \<ge> 0\<close> and every \<open>e\<close> with \<open>gcd e phi \<noteq> 1\<close>, \<^verbatim>\<open>get_d\<close>
  neither returns a value nor runs forever: it ends by raising \<^verbatim>\<open>ZeroDivisionError\<close>, at
  the division \<^verbatim>\<open>t1[0] // t1[1]\<close>, once the remainder \<^verbatim>\<open>t1[1]\<close> has reached 0.
\<close>

theorem get_d_no_inverse:
  assumes "0 \<le> phi" "gcd e phi \<noteq> 1"
  shows "get_d phi e = Some (Inl ZeroDivisionError)"
proof (cases "phi = 0")
  case False
  with assms have "0 < phi" "gcd phi e \<noteq> 1" by (simp_all add: gcd.commute)
  then show ?thesis
    by (simp add: get_d_def get_d_loop_no_inverse)
next
  case True
  with assms have e1: "e \<noteq> 1" by auto
  show ?thesis
  proof (cases "e = 0")
    case True
    with \<open>phi = 0\<close> show ?thesis
      unfolding get_d_def by (subst get_d_loop.simps) simp
  next
    case False
    have "add_phi_while_negative 0 (0 - 0 div e * 1) = Some 0"
      by (simp add: add_phi_while_negative_nonneg)
    from get_d_loop_step [OF e1 False this]
    have "get_d_loop 0 (0, e) (0, 1) = get_d_loop 0 (e, 0) (1, 0)" by simp
    also have "\<dots> = Some (Inl ZeroDivisionError)"
      by (subst get_d_loop.simps) simp
    finally show ?thesis using \<open>phi = 0\<close> by (simp add: get_d_def)
  qed
qed

theorem get_d_no_inverse_witness:
  "get_d 3120 6 = Some (Inl ZeroDivisionError)"
proof -
  have "gcd (6::int) 3120 \<noteq> 1" by code_simp
  with get_d_no_inverse [of 3120 6] show ?thesis by simp
qed

section \<open>Evaluating \<^verbatim>\<open>pow\<close>\<close>

lemma modpow_correct: "0 \<le> ex \<Longrightarrow> modpow b ex m = b ^ nat ex mod m"
proof (induction b ex m rule: modpow.induct)
  case (1 b ex m)
  show ?case
  proof (cases "ex \<le> 0")
    case True
    with "1.prems" have "ex = 0" by simp
    then show ?thesis by (simp add: modpow.simps [of b 0 m])
  next
    case False
    define k where "k = nat (ex div 2)"
    define h where "h = b ^ k mod m"
    from False have ih: "modpow b (ex div 2) m = h"
      using "1.IH" by (simp add: h_def k_def)
    have sq: "(h * h) mod m = b ^ (2 * k) mod m"
      by (simp add: h_def mod_mult_eq mult_2 power_add)
    show ?thesis
    proof (cases "ex mod 2 = 0")
      case True
      then have "ex = 2 * (ex div 2)" by presburger
      then have "nat ex = nat (2 * (ex div 2))" by simp
      then have "nat ex = 2 * k" by (simp add: nat_mult_distrib k_def)
      moreover from False True ih have "modpow b ex m = (h * h) mod m"
        by (simp add: modpow.simps [of b ex m] Let_def)
      ultimately show ?thesis using sq by simp
    next
      case odd: False
      then have "ex = 2 * (ex div 2) + 1" by presburger
      then have "nat ex = nat (2 * (ex div 2) + 1)" by simp
      also from False have "\<dots> = Suc (2 * k)"
        by (simp add: nat_add_distrib nat_mult_distrib k_def)
      finally have e: "b ^ nat ex = b ^ (2 * k) * b" by simp
      from False odd ih have "modpow b ex m = ((h * h) mod m * b) mod m"
        by (simp add: modpow.simps [of b ex m] Let_def)
      also have "\<dots> = (b ^ (2 * k) mod m * b) mod m"
        by (simp only: sq)
      also have "\<dots> = (b ^ (2 * k) * b) mod m"
        by (rule mod_mult_left_eq)
      finally show ?thesis by (simp only: e)
    qed
  qed
qed

lemma py_pow_code [code]:
  "py_pow b ex m =
     (if m = 0 then Inl ValueError
      else if 0 \<le> ex then Inr (modpow b ex m)
      else (case modinv b m of
              None \<Rightarrow> Inl ValueError
            | Some x \<Rightarrow> Inr (modpow x (- ex) m)))"
  by (simp add: py_pow_def modpow_correct split: option.splits)

section \<open>Properties of \<^verbatim>\<open>bitcount\<close>\<close>

text \<open>
  \<^verbatim>\<open>bitcount\<close> always returns: 0 for \<open>n \<le> 0\<close>, and for \<open>n > 0\<close> the number of binary digits
  of \<open>n\<close>.
\<close>

lemma bitcount_grow_total:
  "\<exists>j. bitcount_grow (2 ^ i) n = Some (2 ^ j) \<and> n < 2 ^ (2 ^ j)"
proof (induction "nat (n + 1 - 2 ^ (2 ^ i))" arbitrary: i rule: less_induct)
  case less
  have a: "nat (2 ^ i :: int) = 2 ^ i"
    by (simp add: nat_power_eq)
  show ?case
  proof (cases "(2::int) ^ (2 ^ i) \<le> n")
    case False
    then have "bitcount_grow (2 ^ i) n = Some (2 ^ i)"
      by (subst bitcount_grow.simps) (simp add: a)
    with False show ?thesis by (intro exI [of _ i]) simp
  next
    case True
    have "(2::int) ^ (2 ^ i) < 2 ^ (2 ^ Suc i)"
      by (rule power_strict_increasing) simp_all
    with True have "nat (n + 1 - 2 ^ (2 ^ Suc i)) < nat (n + 1 - 2 ^ (2 ^ i))"
      by simp
    from less [OF this] obtain j where
      "bitcount_grow (2 ^ Suc i) n = Some (2 ^ j)" "n < 2 ^ (2 ^ j)" by blast
    moreover from True have "bitcount_grow (2 ^ i) n = bitcount_grow (2 ^ Suc i) n"
      by (subst bitcount_grow.simps) (simp add: a mult.commute)
    ultimately show ?thesis by auto
  qed
qed

lemma bitcount_shrink_spec:
  "0 \<le> n \<Longrightarrow> n < 2 ^ (2 ^ j) \<Longrightarrow>
     \<exists>b. bitcount_shrink (2 ^ j) n s = (n div 2 ^ b, s + int b)
        \<and> n div 2 ^ b < 2 \<and> (0 < n \<longrightarrow> n div 2 ^ b = 1)"
proof (induction j arbitrary: n s)
  case 0
  then have "bitcount_shrink (2 ^ 0) n s = (n, s)"
    by (simp add: bitcount_shrink.simps [of 1 n s])
  with 0 show ?case
    by (intro exI [of _ 0]) auto
next
  case (Suc j)
  have a: "nat (2 ^ j :: int) = 2 ^ j"
    by (simp add: nat_power_eq)
  have big: "(1::int) < 2 ^ Suc j"
    by (metis one_less_numeral_iff one_less_power semiring_norm(76) zero_less_Suc)
  have half: "(2::int) ^ Suc j div 2 = 2 ^ j" by simp
  show ?case
  proof (cases "(2::int) ^ (2 ^ j) \<le> n")
    case False
    then have lt: "n < 2 ^ (2 ^ j)" by simp
    from Suc.IH [OF Suc.prems(1) lt, of s] obtain b where
      b: "bitcount_shrink (2 ^ j) n s = (n div 2 ^ b, s + int b)"
      "n div 2 ^ b < 2" "0 < n \<longrightarrow> n div 2 ^ b = 1" by blast
    from big False have "bitcount_shrink (2 ^ Suc j) n s = bitcount_shrink (2 ^ j) n s"
      by (subst bitcount_shrink.simps) (simp only: half Let_def a if_True if_False)
    with b show ?thesis by auto
  next
    case True
    let ?n1 = "n div 2 ^ (2 ^ j)"
    from True have pos: "0 < ?n1"
      by (simp add: pos_imp_zdiv_pos_iff)
    have "(2::int) ^ (2 ^ Suc j) = 2 ^ (2 ^ j) * 2 ^ (2 ^ j)"
      by (simp add: power_add [symmetric] mult_2)
    with Suc.prems have "n < 2 ^ (2 ^ j) * 2 ^ (2 ^ j)" by simp
    have lt: "?n1 < 2 ^ (2 ^ j)"
    proof (rule ccontr)
      assume "\<not> ?n1 < 2 ^ (2 ^ j)"
      then have "(2::int) ^ (2 ^ j) * 2 ^ (2 ^ j) \<le> 2 ^ (2 ^ j) * ?n1"
        by (intro mult_left_mono) simp_all
      also have "\<dots> \<le> n"
      proof -
        have "2 ^ (2 ^ j) * ?n1 = n - n mod 2 ^ (2 ^ j)"
          by (simp add: minus_mod_eq_mult_div)
        moreover have "0 \<le> n mod 2 ^ (2 ^ j)"
          by (rule pos_mod_sign) simp
        ultimately show ?thesis by linarith
      qed
      finally show False using \<open>n < 2 ^ (2 ^ j) * 2 ^ (2 ^ j)\<close> by simp
    qed
    from pos have nn: "0 \<le> ?n1" by simp
    from Suc.IH [OF nn lt, of "s + 2 ^ j"] obtain b where
      b: "bitcount_shrink (2 ^ j) ?n1 (s + 2 ^ j) = (?n1 div 2 ^ b, s + 2 ^ j + int b)"
      "?n1 div 2 ^ b < 2" "0 < ?n1 \<longrightarrow> ?n1 div 2 ^ b = 1" by blast
    have d: "?n1 div 2 ^ b = n div 2 ^ (2 ^ j + b)"
      by (simp add: power_add zdiv_zmult2_eq)
    from big True have "bitcount_shrink (2 ^ Suc j) n s = bitcount_shrink (2 ^ j) ?n1 (s + 2 ^ j)"
      by (subst bitcount_shrink.simps) (simp only: half Let_def a if_True)
    with b pos d show ?thesis
      by (intro exI [of _ "2 ^ j + b"]) simp
  qed
qed

lemma bitcount_nonpos: "n \<le> 0 \<Longrightarrow> bitcount n = Some 0"
proof -
  assume n: "n \<le> 0"
  then have "bitcount_grow 1 n = Some 1"
    by (subst bitcount_grow.simps) simp
  moreover have "bitcount_shrink 1 n 0 = (n, 0)"
    by (simp add: bitcount_shrink.simps [of 1 n 0])
  ultimately show ?thesis using n by (simp add: bitcount_def)
qed

lemma bitcount_pos:
  assumes "0 < n"
  shows "\<exists>b. bitcount n = Some (int b + 1) \<and> 2 ^ b \<le> n \<and> n < 2 ^ (b + 1)"
proof -
  from bitcount_grow_total [of 0 n] obtain j where
    j: "bitcount_grow 1 n = Some (2 ^ j)" "n < 2 ^ (2 ^ j)" by auto
  from assms have "0 \<le> n" by simp
  from bitcount_shrink_spec [OF this j(2), of 0] assms obtain b where
    b: "bitcount_shrink (2 ^ j) n 0 = (n div 2 ^ b, int b)" "n div 2 ^ b = 1" by auto
  from b(2) have "2 ^ b \<le> n \<and> n < 2 ^ (b + 1)"
  proof -
    have "n = 2 ^ b * (n div 2 ^ b) + n mod 2 ^ b" by simp
    with b(2) have e: "n = 2 ^ b + n mod 2 ^ b" by simp
    have m: "0 \<le> n mod 2 ^ b" "n mod 2 ^ b < 2 ^ b" by simp_all
    have "(2::int) ^ (b + 1) = 2 * 2 ^ b" by simp
    with e m show ?thesis by linarith
  qed
  moreover from j b have "bitcount n = Some (int b + 1)"
    by (simp add: bitcount_def)
  ultimately show ?thesis by blast
qed

lemma bitcount_total: "\<exists>b. bitcount n = Some b \<and> 0 \<le> b \<and> (0 < b \<longrightarrow> 0 < n)"
proof (cases "0 < n")
  case True
  from bitcount_pos [OF True] show ?thesis using True by auto
next
  case False
  then show ?thesis by (simp add: bitcount_nonpos)
qed

section \<open>Properties of the key operations\<close>

lemma py_pow_nonneg:
  "m \<noteq> 0 \<Longrightarrow> 0 \<le> ex \<Longrightarrow> py_pow b ex m = Inr (b ^ nat ex mod m)"
  by (simp add: py_pow_def)

lemma py_pow_not_guard [simp]:
  "py_pow b ex m \<noteq> Inl MessageTooLarge"
  by (simp add: py_pow_def split: option.splits)

lemma bind_res_Inr:
  "bind_res m f = Some (Inr x) \<longleftrightarrow> (\<exists>v. m = Some (Inr v) \<and> f v = Some (Inr x))"
  by (cases m) (auto simp: bind_res_def split: sum.splits)

lemma init_private_fields:
  assumes "init_private p q e n d primes r0 = Some (Inr k)"
  shows "bitcount (self_n k) = Some (self_nbits k)" "\<exists>dv. self_d k = Some dv"
    "\<not> self_only_pubkey k"
proof -
  from assms obtain pv pb qv ev nv dv nb where
    nb: "bitcount nv = Some nb" and
    k: "k = \<lparr>self_p = Some pv, self_pbits = Some pb, self_q = Some qv,
             self_phi = Some ((pv - 1) * (qv - 1)), self_e = ev, self_n = nv, self_d = Some dv,
             self_nbits = nb, self_only_pubkey = False\<rparr>"
    unfolding init_private_def Let_def bind_eq_Some_conv bind_res_Inr case_prod_beta
    by blast
  from nb k show "bitcount (self_n k) = Some (self_nbits k)" by simp
  from k show "\<exists>dv. self_d k = Some dv" by simp
  from k show "\<not> self_only_pubkey k" by simp
qed

lemma init_nbits:
  assumes "init p q e n d keylength ignore_warning only_pubkey primes r0 = Some (Inr k)"
  shows "bitcount (self_n k) = Some (self_nbits k)"
proof (cases only_pubkey)
  case False
  with assms have "init_private p q e n d primes r0 = Some (Inr k)"
    by (simp add: init_def split: if_splits)
  then show ?thesis by (rule init_private_fields)
next
  case True
  with assms show ?thesis
    by (auto simp: init_def bind_eq_Some_conv split: if_splits)
qed

lemma init_public:
  assumes "init p q e n d keylength ignore_warning True primes r0 = Some (Inr k)"
  shows "self_d k = None" "self_n k \<noteq> 0" "self_only_pubkey k"
  using assms
  by (auto simp: init_def truthy_def bind_eq_Some_conv split: if_splits option.splits)

lemma modinv_coprime:
  assumes "coprime b m" "m \<noteq> 0"
  shows "\<exists>x. modinv b m = Some x \<and> (b * x) mod m = 1 mod m"
proof -
  from bezout_int [of b m] assms(1) obtain u v where uv: "u * b + v * m = 1"
    by (auto simp: coprime_iff_gcd_eq_1)
  define x0 where "x0 = u mod \<bar>m\<bar>"
  from assms(2) have r: "0 \<le> x0" "x0 < \<bar>m\<bar>" by (simp_all add: x0_def)
  have "m dvd u - x0"
    by (simp add: x0_def minus_mod_eq_mult_div)
  then have "m dvd b * (u - x0)" by simp
  then have "(b * x0) mod m = (b * u) mod m"
    by (simp add: mod_eq_dvd_iff algebra_simps dvd_diff_commute)
  also from uv have "b * u = 1 - v * m" by (simp add: algebra_simps)
  also have "(1 - v * m) mod m = 1 mod m"
    by (simp add: mod_diff_right_eq [symmetric])
  finally have P: "(b * x0) mod m = 1 mod m" .
  from r have "x0 \<in> set [0..\<bar>m\<bar> - 1]" by simp
  with P have "find (\<lambda>x. (b * x) mod m = 1 mod m) [0..\<bar>m\<bar> - 1] \<noteq> None"
    by (auto simp: find_None_iff)
  then obtain x where x: "find (\<lambda>x. (b * x) mod m = 1 mod m) [0..\<bar>m\<bar> - 1] = Some x"
    by auto
  then have "(b * x) mod m = 1 mod m"
    by (auto simp: find_Some_iff)
  with x assms(1) show ?thesis by (simp add: modinv_def)
qed

lemma py_pow_negative:
  assumes "m \<noteq> 0" "ex < 0"
  shows "coprime b m \<Longrightarrow> \<exists>x. (b * x) mod m = 1 mod m \<and> py_pow b ex m = Inr (x ^ nat (- ex) mod m)"
    and "\<not> coprime b m \<Longrightarrow> py_pow b ex m = Inl ValueError"
proof -
  assume "coprime b m"
  from modinv_coprime [OF this assms(1)] assms
  show "\<exists>x. (b * x) mod m = 1 mod m \<and> py_pow b ex m = Inr (x ^ nat (- ex) mod m)"
    by (auto simp: py_pow_def)
next
  assume "\<not> coprime b m"
  with assms show "py_pow b ex m = Inl ValueError"
    by (simp add: py_pow_def modinv_def)
qed

text \<open>
  Claim C6, as stated, fails. The constructor accepts the public-only key with \<open>e = - 1\<close>
  and \<open>n = 3233\<close> (\<open>nbits = 12\<close>). The message 61 has 6 bits, fewer than \<open>nbits\<close>, but it
  divides \<open>n = 61 * 53\<close> and so has no inverse modulo \<open>n\<close>: \<^verbatim>\<open>_encrypt(61)\<close> raises the
  \<^verbatim>\<open>ValueError\<close> of \<^verbatim>\<open>pow\<close> and returns nothing.
\<close>

theorem raw_encrypt_negative_exponent_example:
  "init None None (Some (- 1)) (Some 3233) None 2048 False True [] 0
     = Some (Inr \<lparr>self_p = None, self_pbits = None, self_q = None, self_phi = None,
                   self_e = - 1, self_n = 3233, self_d = None, self_nbits = 12,
                   self_only_pubkey = True\<rparr>)
   \<and> bitcount 61 = Some 6
   \<and> raw_encrypt \<lparr>self_p = None, self_pbits = None, self_q = None, self_phi = None,
                   self_e = - 1, self_n = 3233, self_d = None, self_nbits = 12,
                   self_only_pubkey = True\<rparr> 61 = Some (Inl ValueError)"
  by code_simp

text \<open>
  Claim C6, amended. For every key the constructor returns and every integer \<open>msg\<close> (so
  for every non-negative one), \<^verbatim>\<open>_encrypt(msg)\<close> raises the "msg to big" error
  (\<open>MessageTooLarge\<close>) if and only if \<^verbatim>\<open>bitcount(msg) >= nbits\<close>. When
  \<^verbatim>\<open>bitcount(msg) < nbits\<close>: for \<open>e \<ge> 0\<close> it returns \<open>msg ^ e mod n\<close>; for \<open>e < 0\<close> and \<open>msg\<close>
  coprime to \<open>n\<close> it returns \<open>x ^ (- e) mod n\<close> for an inverse \<open>x\<close> of \<open>msg\<close> modulo \<open>n\<close>; and
  for \<open>e < 0\<close> and \<open>msg\<close> not coprime to \<open>n\<close>, \<^verbatim>\<open>pow\<close> raises \<^verbatim>\<open>ValueError\<close>.
\<close>

theorem raw_encrypt_guard:
  assumes "init p q e n d keylength ignore_warning only_pubkey primes r0 = Some (Inr k)"
  shows "\<exists>b. bitcount msg = Some b
           \<and> (raw_encrypt k msg = Some (Inl MessageTooLarge) \<longleftrightarrow> self_nbits k \<le> b)
           \<and> (b < self_nbits k \<and> 0 \<le> self_e k
                \<longrightarrow> raw_encrypt k msg = Some (Inr (msg ^ nat (self_e k) mod self_n k)))
           \<and> (b < self_nbits k \<and> self_e k < 0 \<and> coprime msg (self_n k)
                \<longrightarrow> (\<exists>x. (msg * x) mod self_n k = 1 mod self_n k
                         \<and> raw_encrypt k msg = Some (Inr (x ^ nat (- self_e k) mod self_n k))))
           \<and> (b < self_nbits k \<and> self_e k < 0 \<and> \<not> coprime msg (self_n k)
                \<longrightarrow> raw_encrypt k msg = Some (Inl ValueError))"
proof -
  from bitcount_total [of msg] obtain b where b: "bitcount msg = Some b" "0 \<le> b" by blast
  have n: "self_n k \<noteq> 0" if "b < self_nbits k"
  proof
    assume "self_n k = 0"
    then have "bitcount (self_n k) = Some 0" by (simp add: bitcount_nonpos)
    with init_nbits [OF assms] that b(2) show False by simp
  qed
  from b have "raw_encrypt k msg = Some (Inl MessageTooLarge) \<longleftrightarrow> self_nbits k \<le> b"
    by (simp add: raw_encrypt_def)
  moreover from b n have "b < self_nbits k \<and> 0 \<le> self_e k
      \<longrightarrow> raw_encrypt k msg = Some (Inr (msg ^ nat (self_e k) mod self_n k))"
    by (simp add: raw_encrypt_def py_pow_nonneg)
  moreover have "b < self_nbits k \<and> self_e k < 0 \<and> coprime msg (self_n k)
      \<longrightarrow> (\<exists>x. (msg * x) mod self_n k = 1 mod self_n k
             \<and> raw_encrypt k msg = Some (Inr (x ^ nat (- self_e k) mod self_n k)))"
  proof (intro impI, elim conjE)
    assume h: "b < self_nbits k" "self_e k < 0" "coprime msg (self_n k)"
    from py_pow_negative(1) [OF n [OF h(1)] h(2,3)] b h(1)
    show "\<exists>x. (msg * x) mod self_n k = 1 mod self_n k
             \<and> raw_encrypt k msg = Some (Inr (x ^ nat (- self_e k) mod self_n k))"
      by (auto simp: raw_encrypt_def)
  qed
  moreover have "b < self_nbits k \<and> self_e k < 0 \<and> \<not> coprime msg (self_n k)
      \<longrightarrow> raw_encrypt k msg = Some (Inl ValueError)"
    using py_pow_negative(2) [of "self_n k" "self_e k" msg] n b
    by (auto simp: raw_encrypt_def)
  ultimately show ?thesis using b(1) by blast
qed

theorem raw_encrypt_guard_witness:
  "raw_encrypt \<lparr>self_p = Some 61, self_pbits = Some 6, self_q = Some 53, self_phi = Some 3120,
                 self_e = 7, self_n = 3233, self_d = Some 1783, self_nbits = 12,
                 self_only_pubkey = False\<rparr> 65 = Some (Inr (65 ^ 7 mod 3233))
   \<and> raw_encrypt \<lparr>self_p = Some 61, self_pbits = Some 6, self_q = Some 53, self_phi = Some 3120,
                 self_e = 7, self_n = 3233, self_d = Some 1783, self_nbits = 12,
                 self_only_pubkey = False\<rparr> 4096 = Some (Inl MessageTooLarge)"
proof -
  let ?k = "\<lparr>self_p = Some 61, self_pbits = Some 6, self_q = Some 53, self_phi = Some 3120,
             self_e = 7, self_n = 3233, self_d = Some 1783, self_nbits = 12,
             self_only_pubkey = False\<rparr>"
  have i: "init (Some 61) (Some 53) None None None 2048 False False [] (10 ^ 46) = Some (Inr ?k)"
    by code_simp
  have b: "bitcount 65 = Some 7" "bitcount 4096 = Some 13"
    by code_simp+
  from raw_encrypt_guard [OF i, of 65] raw_encrypt_guard [OF i, of 4096] b
  show ?thesis by simp
qed

text \<open>
  Claim C9, amended. For every key constructed in public-only mode, every integer
  \<open>cipher\<close> and every blinding factor \<open>r\<close>, \<^verbatim>\<open>decrypt(cipher)\<close> never returns a value. The
  code has no check for a missing private key: the failure is the \<^verbatim>\<open>AttributeError\<close>
  raised when \<^verbatim>\<open>_decrypt\<close> reads the attribute \<^verbatim>\<open>d\<close>, which such a key does not have. That
  is the error whenever \<open>e \<ge> 0\<close> or \<open>nbits < 1023\<close>; on the blinded path with a negative
  \<open>e\<close>, \<^verbatim>\<open>pow(r, e, n)\<close> is evaluated first and may raise \<^verbatim>\<open>ValueError\<close> before \<^verbatim>\<open>d\<close> is read.
\<close>

theorem decrypt_public_only:
  assumes "init p q e n d keylength ignore_warning True primes r0 = Some (Inr k)"
  shows "(\<exists>err. decrypt k r cipher = Inl err)
         \<and> (0 \<le> self_e k \<or> self_nbits k < 1023 \<longrightarrow> decrypt k r cipher = Inl AttributeError)"
proof -
  note pub = init_public [OF assms]
  have "\<exists>err. raw_decrypt k r cipher = Inl err"
    using pub(1) by (auto simp: raw_decrypt_def Let_def split: sum.splits)
  moreover have "raw_decrypt k r cipher = Inl AttributeError"
    if "0 \<le> self_e k \<or> self_nbits k < 1023"
    using that pub(1,2) by (auto simp: raw_decrypt_def Let_def py_pow_nonneg)
  ultimately show ?thesis
    by (auto simp: decrypt_def)
qed

theorem decrypt_public_only_witness:
  "decrypt \<lparr>self_p = None, self_pbits = None, self_q = None, self_phi = None,
             self_e = 7, self_n = 3233, self_d = None, self_nbits = 12,
             self_only_pubkey = True\<rparr> (10 ^ 46) 2790 = Inl AttributeError"
proof -
  let ?k = "\<lparr>self_p = None, self_pbits = None, self_q = None, self_phi = None,
             self_e = 7, self_n = 3233, self_d = None, self_nbits = 12,
             self_only_pubkey = True\<rparr>"
  have i: "init None None (Some 7) (Some 3233) None 2048 False True [] 0 = Some (Inr ?k)"
    by code_simp
  from decrypt_public_only [OF i, of "10 ^ 46" 2790] show ?thesis by simp
qed

text \<open>
  Claim C9, as stated, fails: no private-key error is reported. The constructor accepts
  both public-only keys below. With \<open>e = 7\<close> and \<open>n = 3233\<close>, \<^verbatim>\<open>decrypt\<close> ends in the
  interpreter's \<^verbatim>\<open>AttributeError\<close> for the attribute \<^verbatim>\<open>d\<close>, which was never set. With
  \<open>e = - 1\<close> and \<open>n = 2 ^ 1023\<close> (\<open>nbits = 1024\<close>, the blinded path) and the blinding factor
  \<open>r = 10 ^ 46\<close>, which is even and so has no inverse modulo \<open>n\<close>, \<^verbatim>\<open>pow(r, e, n)\<close> raises
  \<^verbatim>\<open>ValueError\<close> before the private exponent is touched.
\<close>

theorem decrypt_public_only_other_errors:
  "init None None (Some 7) (Some 3233) None 2048 False True [] 0
     = Some (Inr \<lparr>self_p = None, self_pbits = None, self_q = None, self_phi = None,
                   self_e = 7, self_n = 3233, self_d = None, self_nbits = 12,
                   self_only_pubkey = True\<rparr>)
   \<and> decrypt \<lparr>self_p = None, self_pbits = None, self_q = None, self_phi = None,
               self_e = 7, self_n = 3233, self_d = None, self_nbits = 12,
               self_only_pubkey = True\<rparr> (10 ^ 46) 2790 = Inl AttributeError
   \<and> init None None (Some (- 1)) (Some (2 ^ 1023)) None 2048 False True [] 0
     = Some (Inr \<lparr>self_p = None, self_pbits = None, self_q = None, self_phi = None,
                   self_e = - 1, self_n = 2 ^ 1023, self_d = None, self_nbits = 1024,
                   self_only_pubkey = True\<rparr>)
   \<and> decrypt \<lparr>self_p = None, self_pbits = None, self_q = None, self_phi = None,
               self_e = - 1, self_n = 2 ^ 1023, self_d = None, self_nbits = 1024,
               self_only_pubkey = True\<rparr> (10 ^ 46) 5 = Inl ValueError"
  by code_simp

lemma py_pow_range:
  "py_pow b ex m = Inr y \<Longrightarrow> 0 < m \<Longrightarrow> 0 \<le> y \<and> y < m"
  by (auto simp: py_pow_def split: if_splits option.splits)

lemma raw_decrypt_blinded_bound:
  assumes "1023 \<le> self_nbits k" "0 < self_n k" "0 < r" "raw_decrypt k r c = Inr res"
  shows "0 \<le> res" "res * r < self_n k"
proof -
  from assms(1,4) obtain X d Y where
    "py_pow X d (self_n k) = Inr Y" and res: "res = (Y div r) mod self_n k"
    by (auto simp: raw_decrypt_def Let_def split: sum.splits option.splits if_splits)
  with py_pow_range [OF this(1) assms(2)]
  have Y: "0 \<le> Y" "Y < self_n k" "res = (Y div r) mod self_n k"
    by simp_all
  from Y(1) assms(3) have q: "0 \<le> Y div r"
    by (simp add: pos_imp_zdiv_nonneg_iff)
  have m: "Y div r * r = Y - Y mod r"
    by (simp add: minus_mod_eq_div_mult)
  from assms(3) have m0: "0 \<le> Y mod r" by simp
  from q assms(3) have "Y div r * 1 \<le> Y div r * r"
    by (intro mult_left_mono) simp_all
  with m m0 have "Y div r \<le> Y" by simp
  with q Y have res': "res = Y div r" by simp
  with q show "0 \<le> res" by simp
  from m m0 Y(2) have "Y div r * r < self_n k" by linarith
  then show "res * r < self_n k" by (simp only: res')
qed

text \<open>
  Claim C1 does not hold of the code. On the blinded path \<^verbatim>\<open>_decrypt\<close> returns
  \<^verbatim>\<open>(Y // r) % n\<close> with \<open>0 \<le> Y < n\<close>, which is below \<open>n / r\<close>, so it cannot return a message
  \<open>m\<close> with \<open>n \<le> m * r\<close>. For a private key with \<open>nbits \<ge> 1023\<close>, every blinding factor
  \<open>r \<ge> 10 ^ 46\<close> and every string \<open>s\<close> whose encoded integer \<open>m\<close> has fewer than \<open>nbits\<close> bits
  but satisfies \<open>n \<le> m * 10 ^ 46\<close>, the check inside \<^verbatim>\<open>encrypt\<close> therefore fails:
  \<^verbatim>\<open>encrypt(s)\<close> raises "Message not the same after decryption" instead of returning a
  cipher, and \<^verbatim>\<open>decrypt(encrypt(s))\<close> is not \<open>s\<close>. With a 1024-bit modulus this is every
  string of 65 to 76 characters.
\<close>

theorem encrypt_blinded_rejects_long_message:
  assumes "\<not> self_only_pubkey k" and "self_d k = Some dd" and "0 \<le> self_e k" and "0 \<le> dd"
    and "1023 \<le> self_nbits k" and "0 < self_n k"
    and "10 ^ 46 \<le> r"
    and "stringToNumber s = Inr m" and "bitcount m = Some b" and "b < self_nbits k"
    and "self_n k \<le> m * 10 ^ 46"
  shows "encrypt k r s = Some (Inl EncryptionVerificationFailed)"
proof -
  let ?c = "m ^ nat (self_e k) mod self_n k"
  from assms have enc: "raw_encrypt k m = Some (Inr ?c)"
    by (simp add: raw_encrypt_def py_pow_nonneg)
  from assms have r: "0 < r" by simp
  from assms r obtain res where res: "raw_decrypt k r ?c = Inr res"
    by (auto simp: raw_decrypt_def Let_def py_pow_nonneg)
  note bd = raw_decrypt_blinded_bound [OF assms(5,6) r res]
  have "res \<noteq> m"
  proof
    assume "res = m"
    with bd have "m * r < self_n k" "0 \<le> m" by simp_all
    moreover from \<open>0 \<le> m\<close> assms(7) have "m * 10 ^ 46 \<le> m * r"
      by (rule mult_left_mono [rotated])
    ultimately show False using assms(11) by linarith
  qed
  with assms(1,8) enc res show ?thesis
    by (simp add: encrypt_def bind_res_def)
qed

text \<open>
  The sample key is what the constructor computes from its two primes: the totient, the
  modulus and its bit length, the exponent \<^verbatim>\<open>get_e\<close> selects and the inverse \<^verbatim>\<open>get_d\<close>
  returns.
\<close>

lemma sample_key_fields:
  "self_phi sample_key = Some ((the (self_p sample_key) - 1) * (the (self_q sample_key) - 1))"
  "self_n sample_key = the (self_p sample_key) * the (self_q sample_key)"
  "bitcount (self_n sample_key) = Some (self_nbits sample_key)"
  "get_e (the (self_phi sample_key)) = Inr (Some (self_e sample_key))"
  "get_d (the (self_phi sample_key)) (self_e sample_key) = Some (Inr (the (self_d sample_key)))"
  unfolding sample_key_def by code_simp+

theorem encrypt_blinded_rejects_long_message_witness:
  "encrypt sample_key (10 ^ 46) (replicate 70 97) = Some (Inl EncryptionVerificationFailed)"
proof -
  have m: "stringToNumber (replicate 70 97) = Inr 14210097009700970097009700970097009700970097009700970097009700970097009700970097009700970097009700970097009700970097009700970097009700970097009700970097009700970097009700970097009700970097009700970097009700970097009700970097009700970097009700970097009700970097009700970097009700970097"
    by code_simp
  have b: "bitcount 14210097009700970097009700970097009700970097009700970097009700970097009700970097009700970097009700970097009700970097009700970097009700970097009700970097009700970097009700970097009700970097009700970097009700970097009700970097009700970097009700970097009700970097009700970097009700970097 = Some 941"
    by code_simp
  show ?thesis
    by (rule encrypt_blinded_rejects_long_message [OF _ _ _ _ _ _ _ m b, of _ 61638070331916110059261504618925607265144635015446098609291311404954973542097197993875331711069087594058392289019373106681079153097019820246705804646120819402915626543567857497407313415212181725700407647007530562167862564344675310204006788375868628777844955441770938154347559259915618976312050365066418116469])
      (simp_all add: sample_key_def)
qed

section \<open>Properties of \<^verbatim>\<open>is_prime\<close>\<close>

text \<open>
  Fermat's little theorem, by induction on the base with the binomial theorem, and the
  square roots of 1 modulo a prime.
\<close>

lemma prime_number_gcd:
  assumes "prime_number p" "\<not> p dvd a"
  shows "coprime p a"
proof -
  from assms(1) have p: "1 < p" and nd: "\<And>m. 2 \<le> m \<Longrightarrow> m < p \<Longrightarrow> \<not> m dvd p"
    by (auto simp: prime_number_def)
  let ?g = "gcd p a"
  have g: "?g dvd p" "?g dvd a" "0 \<le> ?g" by simp_all
  from p have "?g \<noteq> 0" by auto
  moreover from g(1) p have "?g \<le> p" by (simp add: zdvd_imp_le)
  moreover have "?g \<noteq> p"
  proof
    assume "?g = p"
    then have "p dvd a" by (metis gcd_dvd2)
    with assms(2) show False by simp
  qed
  moreover from nd [of ?g] g(1) have "\<not> (2 \<le> ?g \<and> ?g < p)" by blast
  ultimately have "?g = 1" using g(3) by linarith
  then show ?thesis by (simp add: coprime_iff_gcd_eq_1)
qed

lemma prime_number_dvd_mult:
  assumes "prime_number p" "p dvd a * b"
  shows "p dvd a \<or> p dvd b"
proof (cases "p dvd a")
  case False
  from prime_number_gcd [OF assms(1) False] assms(2) show ?thesis
    by (simp add: coprime_dvd_mult_right_iff)
qed simp

lemma prime_number_not_dvd_small:
  assumes "1 < (p::int)" "0 < a" "a < p"
  shows "\<not> p dvd a"
  using assms zdvd_imp_le [of p a] by auto

lemma prime_number_dvd_choose:
  assumes "prime_number p" "0 < k" "int k < p"
  shows "p dvd int (nat p choose k)"
proof -
  from assms(1) have p: "1 < p" by (simp add: prime_number_def)
  from assms obtain k' where k: "k = Suc k'" by (cases k) auto
  from p obtain P' where P: "nat p = Suc P'" by (cases "nat p") auto
  have "Suc k' * (Suc P' choose Suc k') = Suc P' * (P' choose k')"
    by (rule Suc_times_binomial)
  then have "int k * int (nat p choose k) = int (nat p) * int (P' choose k')"
    unfolding k P by (metis of_nat_mult)
  with p have "p dvd int k * int (nat p choose k)" by simp
  from prime_number_dvd_mult [OF assms(1) this]
    prime_number_not_dvd_small [OF p _ assms(3)] assms(2)
  show ?thesis by auto
qed

lemma fermat_nat:
  assumes "prime_number p"
  shows "p dvd (int m) ^ nat p - int m"
proof (induction m)
  case 0
  from assms have "0 < nat p" by (simp add: prime_number_def)
  then show ?case by (simp add: zero_power)
next
  case (Suc m)
  from assms have p: "1 < p" by (simp add: prime_number_def)
  define P where "P = nat p"
  with p have P: "0 < P" "int P = p" by simp_all
  define f where "f k = int (P choose k) * int m ^ k" for k
  have bin: "(int m + 1) ^ P = (\<Sum>k\<le>P. f k)"
    using binomial_ring [of "int m" 1 P] by (simp add: f_def)
  have fin: "finite {..P}" and mem: "0 \<in> {..P}" "P \<in> {..P} - {0}"
    using P by auto
  have "(\<Sum>k\<le>P. f k) = f 0 + (\<Sum>k \<in> {..P} - {0}. f k)"
    by (rule sum.remove [OF fin mem(1)])
  also have "(\<Sum>k \<in> {..P} - {0}. f k) = f P + (\<Sum>k \<in> {..P} - {0} - {P}. f k)"
    by (rule sum.remove [OF _ mem(2)]) simp
  finally have split: "(\<Sum>k\<le>P. f k) = 1 + int m ^ P + (\<Sum>k \<in> {..P} - {0} - {P}. f k)"
    by (simp add: f_def)
  have "p dvd (\<Sum>k \<in> {..P} - {0} - {P}. f k)"
  proof (rule dvd_sum)
    fix k
    assume "k \<in> {..P} - {0} - {P}"
    then have "0 < k" "int k < p" using P by auto
    from prime_number_dvd_choose [OF assms this] show "p dvd f k"
      by (simp add: f_def P_def)
  qed
  moreover from Suc have "p dvd int m ^ P - int m" by (simp add: P_def)
  ultimately have "p dvd (int m ^ P - int m) + (\<Sum>k \<in> {..P} - {0} - {P}. f k)"
    by (intro dvd_add)
  moreover have "(int (Suc m)) ^ nat p - int (Suc m)
      = (int m ^ P - int m) + (\<Sum>k \<in> {..P} - {0} - {P}. f k)"
  proof -
    have s: "int (Suc m) = int m + 1" by simp
    have "(int (Suc m)) ^ nat p - int (Suc m) = (int m + 1) ^ P - (int m + 1)"
      unfolding s P_def ..
    also have "\<dots> = (1 + int m ^ P + (\<Sum>k \<in> {..P} - {0} - {P}. f k)) - (int m + 1)"
      by (simp only: bin split)
    also have "\<dots> = (int m ^ P - int m) + (\<Sum>k \<in> {..P} - {0} - {P}. f k)"
      by simp
    finally show ?thesis .
  qed
  ultimately show ?case by (simp only:)
qed

lemma fermat_little:
  assumes "prime_number p" "0 < a" "a < p"
  shows "a ^ nat (p - 1) mod p = 1"
proof -
  from assms(1) have p: "1 < p" by (simp add: prime_number_def)
  from assms(2) have "p dvd a ^ nat p - a"
    using fermat_nat [OF assms(1), of "nat a"] by simp
  moreover from p have "nat p = Suc (nat (p - 1))" by simp
  ultimately have "p dvd a * (a ^ nat (p - 1) - 1)"
    by (simp add: algebra_simps)
  from prime_number_dvd_mult [OF assms(1) this] prime_number_not_dvd_small [OF p assms(2,3)]
  have "p dvd a ^ nat (p - 1) - 1" by simp
  then have "a ^ nat (p - 1) mod p = 1 mod p"
    by (simp add: mod_eq_dvd_iff)
  with p show ?thesis by simp
qed

lemma prime_number_sqrt_one:
  assumes "prime_number p" "0 \<le> x" "x < p" "x ^ 2 mod p = 1"
  shows "x = 1 \<or> x = p - 1"
proof -
  from assms(1) have p: "1 < p" by (simp add: prime_number_def)
  from assms(4) p have "x ^ 2 mod p = 1 mod p" by simp
  then have "p dvd x ^ 2 - 1" by (simp add: mod_eq_dvd_iff)
  moreover have "x ^ 2 - 1 = (x - 1) * (x + 1)"
    by (simp add: power2_eq_square algebra_simps)
  ultimately have "p dvd (x - 1) * (x + 1)" by simp
  from prime_number_dvd_mult [OF assms(1) this] show ?thesis
  proof
    assume d: "p dvd x - 1"
    have "x - 1 = 0"
    proof (rule ccontr)
      assume "x - 1 \<noteq> 0"
      with assms(2) have "0 < x - 1" using d p
        by (cases "x = 0") auto
      with prime_number_not_dvd_small [OF p this] assms(3) d show False by simp
    qed
    then show ?thesis by simp
  next
    assume d: "p dvd x + 1"
    from assms(2) have pos: "0 < x + 1" by simp
    have "\<not> x + 1 < p"
      using prime_number_not_dvd_small [OF p pos] d by auto
    with assms(3) show ?thesis by simp
  qed
qed

lemma split_even_spec:
  "0 < r \<Longrightarrow> \<exists>t r'. split_even s r = Some (s + int t, r') \<and> r = 2 ^ t * r' \<and> r' mod 2 \<noteq> 0 \<and> 0 < r'"
proof (induction "nat r" arbitrary: r s rule: less_induct)
  case less
  show ?case
  proof (cases "r mod 2 = 0")
    case False
    then have "split_even s r = Some (s, r)"
      by (subst split_even.simps) simp
    with False less.prems show ?thesis
      by (intro exI [of _ 0] exI [of _ r]) simp
  next
    case True
    from True less.prems have "0 < r div 2" by presburger
    moreover from True less.prems have "r div 2 < r" by presburger
    moreover from True have "r = 2 * (r div 2)" by presburger
    ultimately have h: "0 < r div 2" "nat (r div 2) < nat r" "r = 2 * (r div 2)"
      by simp_all
    from less.hyps [OF h(2) h(1), of "s + 1"] obtain t r' where
      t: "split_even (s + 1) (r div 2) = Some (s + 1 + int t, r')" "r div 2 = 2 ^ t * r'"
      "r' mod 2 \<noteq> 0" "0 < r'" by blast
    from True have "split_even s r = split_even (s + 1) (r div 2)"
      by (subst split_even.simps) simp
    moreover from h(3) t(2) have "r = 2 ^ Suc t * r'" by simp
    ultimately show ?thesis
      using t by (intro exI [of _ "Suc t"] exI [of _ r']) simp
  qed
qed

lemma squarings_prime:
  assumes p: "prime_number n" and one: "a ^ (2 ^ nat s * R) mod n = 1"
  shows "1 \<le> j \<Longrightarrow> j \<le> s \<Longrightarrow> x = a ^ (2 ^ nat (j - 1) * R) mod n \<Longrightarrow> x \<noteq> 1
           \<Longrightarrow> squarings n s j x"
proof (induction "nat (s - j)" arbitrary: j x rule: less_induct)
  case less
  from p have n: "1 < n" by (simp add: prime_number_def)
  from less.prems(3) n have xr: "0 \<le> x" "x < n" by simp_all
  from less.prems(1) have "nat j = Suc (nat (j - 1))" by simp
  then have "(2::nat) ^ nat j * R = 2 ^ nat (j - 1) * R * 2" by simp
  then have "a ^ (2 ^ nat j * R) = (a ^ (2 ^ nat (j - 1) * R)) ^ 2"
    by (simp only: power_mult)
  then have sq: "x ^ 2 mod n = a ^ (2 ^ nat j * R) mod n"
    by (simp add: less.prems(3) power_mod)
  show ?case
  proof (cases "j < s \<and> x \<noteq> n - 1")
    case True
    have "x ^ 2 mod n \<noteq> 1"
    proof
      assume "x ^ 2 mod n = 1"
      from prime_number_sqrt_one [OF p xr this] True less.prems(4) show False by simp
    qed
    moreover from True less.prems have "squarings n s (j + 1) (x ^ 2 mod n)"
      using less.hyps [of "j + 1" "x ^ 2 mod n"] sq \<open>x ^ 2 mod n \<noteq> 1\<close> by simp
    ultimately show ?thesis using True
      by (subst squarings.simps) (simp add: Let_def)
  next
    case False
    have "x = n - 1"
    proof (rule ccontr)
      assume ne: "x \<noteq> n - 1"
      with False less.prems(2) have "j = s" by simp
      with sq one have "x ^ 2 mod n = 1" by simp
      from prime_number_sqrt_one [OF p xr this] ne less.prems(4) show False by simp
    qed
    with False show ?thesis
      by (subst squarings.simps) simp
  qed
qed

lemma rounds_prime:
  assumes p: "prime_number n" and s: "1 \<le> s" and r: "0 \<le> r"
    and dec: "n - 1 = 2 ^ nat s * r"
    and draws: "\<forall>i. 2 \<le> draw i \<and> draw i \<le> n - 2"
  shows "rounds n s r draw k i"
proof (induction "nat (k - i)" arbitrary: i rule: less_induct)
  case less
  show ?case
  proof (cases "i < k")
    case False
    then show ?thesis by (subst rounds.simps) simp
  next
    case True
    then have "nat (k - (i + 1)) < nat (k - i)" by simp
    then have next_round: "rounds n s r draw k (i + 1)" by (rule less.hyps)
    define a where "a = draw (nat i)"
    define x where "x = a ^ nat r mod n"
    from draws have "2 \<le> a" "a \<le> n - 2" by (simp_all add: a_def)
    then have a: "0 < a" "a < n" by simp_all
    from p have n: "1 < n" by (simp add: prime_number_def)
    from r have "nat (2 ^ nat s * r) = 2 ^ nat s * nat r"
      by (simp add: nat_mult_distrib nat_power_eq)
    with dec fermat_little [OF p a] have one: "a ^ (2 ^ nat s * nat r) mod n = 1"
      by simp
    have "squarings n s 1 x" if "x \<noteq> 1"
      using squarings_prime [OF p one, of 1 x] s that by (simp add: x_def)
    with next_round True show ?thesis
      by (subst rounds.simps) (simp add: Let_def a_def [symmetric] x_def [symmetric])
  qed
qed

text \<open>
  Claim C7. \<^verbatim>\<open>is_prime\<close> never rejects a prime: for every prime \<open>n\<close>, every number of
  rounds \<open>k\<close> (so every \<open>k \<ge> 1\<close>) and every sequence of witnesses drawn from \<open>2 .. n - 2\<close>,
  \<^verbatim>\<open>is_prime(n, k)\<close> returns \<^verbatim>\<open>True\<close> (for the primes 2 and 3 no witness is drawn); and it
  returns \<^verbatim>\<open>False\<close> for every \<open>n \<le> 1\<close> and every even \<open>n > 2\<close>.
\<close>

theorem is_prime_no_false_negative:
  "(prime_number n \<and> (n \<le> 3 \<or> (\<forall>i. 2 \<le> draw i \<and> draw i \<le> n - 2))
      \<longrightarrow> is_prime n k draw = Some True)
   \<and> (n \<le> 1 \<or> (2 < n \<and> n mod 2 = 0) \<longrightarrow> is_prime n k draw = Some False)"
proof (intro conjI impI)
  assume "n \<le> 1 \<or> (2 < n \<and> n mod 2 = 0)"
  then show "is_prime n k draw = Some False"
    by (auto simp: is_prime_def)
next
  assume h: "prime_number n \<and> (n \<le> 3 \<or> (\<forall>i. 2 \<le> draw i \<and> draw i \<le> n - 2))"
  then have p: "prime_number n" and n1: "1 < n" by (simp_all add: prime_number_def)
  show "is_prime n k draw = Some True"
  proof (cases "n = 2 \<or> n = 3")
    case True
    then show ?thesis by (auto simp: is_prime_def)
  next
    case False
    with n1 have n4: "3 < n" by simp
    have odd: "n mod 2 \<noteq> 0"
    proof
      assume "n mod 2 = 0"
      then have "2 dvd n" by presburger
      with p n4 show False by (auto simp: prime_number_def)
    qed
    from n1 have "0 < n - 1" by simp
    from split_even_spec [OF this, of 0] obtain t r where
      t: "split_even 0 (n - 1) = Some (int t, r)" "n - 1 = 2 ^ t * r" "r mod 2 \<noteq> 0" "0 < r"
      by auto
    have "t \<noteq> 0"
    proof
      assume "t = 0"
      with t(2) have "r = n - 1" by simp
      with t(3) odd show False by presburger
    qed
    then have s: "1 \<le> int t" by simp
    from h n4 have draws: "\<forall>i. 2 \<le> draw i \<and> draw i \<le> n - 2" by simp
    from t(4) have r: "0 \<le> r" by simp
    from t(2) have dec: "n - 1 = 2 ^ nat (int t) * r" by simp
    from rounds_prime [OF p s r dec draws] have "rounds n (int t) r draw k 0" .
    with False n1 odd t(1) show ?thesis
      by (simp add: is_prime_def)
  qed
qed

theorem is_prime_no_false_negative_witness:
  "is_prime 97 128 (\<lambda>i. 2 + int i mod 94) = Some True \<and> is_prime 96 128 (\<lambda>i. 5) = Some False"
proof -
  have p: "prime_number 97" by code_simp
  have d: "\<forall>i. 2 \<le> 2 + int i mod 94 \<and> 2 + int i mod 94 \<le> 97 - 2"
  proof
    fix i
    have "0 \<le> int i mod 94" "int i mod 94 < 94" by simp_all
    then show "2 \<le> 2 + int i mod 94 \<and> 2 + int i mod 94 \<le> 97 - 2" by linarith
  qed
  from is_prime_no_false_negative [of 97 "\<lambda>i. 2 + int i mod 94" 128] p d
  have "is_prime 97 128 (\<lambda>i. 2 + int i mod 94) = Some True" by blast
  moreover from is_prime_no_false_negative [of 96 "\<lambda>i. 5" 128]
  have "is_prime 96 128 (\<lambda>i. 5) = Some False" by simp
  ultimately show ?thesis by simp
qed

end
